theory Spec2Isabelle
  imports Main "HOL-Library.Word" "HOL-Library.Finite_Map"
begin

unbundle bit_operations_syntax

section \<open>The vici message model of message.go\<close>

subsection \<open>Bytes, strings and slices\<close>

text \<open>
  A Go \<^verbatim>\<open>byte\<close> is an 8-bit word and a \<^verbatim>\<open>[]byte\<close> a list of them. A Go
  \<^verbatim>\<open>string\<close> is a sequence of bytes as well; it is modelled as a \<open>string\<close> (a list
  of 8-bit characters), and the conversions \<^verbatim>\<open>[]byte(s)\<close> (what
  \<^verbatim>\<open>buf.WriteString\<close> appends) and \<^verbatim>\<open>string(b)\<close> are written out.
\<close>

type_synonym byte = "8 word"

definition bytes :: "string \<Rightarrow> byte list" where
  "bytes s = map (\<lambda>c. of_nat (of_char c)) s"

definition string_of :: "byte list \<Rightarrow> string" where
  "string_of bs = map (\<lambda>b. char_of (unat b)) bs"

text \<open>
  A \<^verbatim>\<open>[]string\<close> is either the nil slice or a slice with items; both have a
  sequence of items (empty for nil), and \<^verbatim>\<open>reflect.Value.IsNil\<close> tells them apart.
\<close>

datatype strslice = NilSlice | Slice "string list"

fun items :: "strslice \<Rightarrow> string list" where
  "items NilSlice = []"
| "items (Slice xs) = xs"

fun IsNil :: "strslice \<Rightarrow> bool" where
  "IsNil NilSlice = True"
| "IsNil (Slice xs) = False"

text \<open>\<^verbatim>\<open>append(list, value)\<close> on a \<^verbatim>\<open>[]string\<close>: the result is never nil.\<close>

fun append_item :: "strslice \<Rightarrow> string \<Rightarrow> strslice" where
  "append_item l v = Slice (items l @ [v])"

subsection \<open>Messages\<close>

text \<open>
  The values an \<^verbatim>\<open>interface{}\<close> can hold are split by what \<^verbatim>\<open>addItem\<close> and
  \<^verbatim>\<open>encode\<close> ask of them: the \<^verbatim>\<open>reflect.Kind\<close> and the type assertions to
  \<^verbatim>\<open>string\<close>, \<^verbatim>\<open>[]string\<close> and \<^verbatim>\<open>*Message\<close>. The three supported
  element types have a constructor each; \<open>GOther\<close> stands for everything else:
  a value of kind String whose type is not \<^verbatim>\<open>string\<close>, a slice or array that is
  not a \<^verbatim>\<open>[]string\<close>, the nil \<^verbatim>\<open>*Message\<close>, a pointer to another type, and a
  value of any other kind (the nil interface has kind Invalid and is one of these).

  A \<^verbatim>\<open>Message\<close> is the struct of the source: the slice \<^verbatim>\<open>keys\<close> and the map
  \<^verbatim>\<open>data\<close>. A \<^verbatim>\<open>*Message\<close> stored in a message is modelled by the message it
  points to: no function of the source changes a message that is stored in another.
\<close>

datatype other = NamedString | OtherSlice | NilMessage | OtherPtr | OtherKind

datatype gvalue =
    GString string
  | GStrings strslice
  | GMessage message
  | GOther other
and message = Message (keys: "string list") (data: "(string, gvalue) fmap")

datatype error =
    Encoding
  | Decoding
  | UnsupportedType
  | CommandFailed "gvalue option"
  | BadKey
  | BadValue
  | EndOfBuffer
  | ExpectedBeginning
  | MarshalUnsupportedType
  | UnmarshalBadType
  | UnmarshalTypeMismatch
  | UnmarshalNonMessage
  | Panic

text \<open>
  The errors whose text starts with that of \<^verbatim>\<open>errMalformedMessage\<close>
  (\<^verbatim>\<open>errBadKey\<close>, \<^verbatim>\<open>errBadValue\<close>, \<^verbatim>\<open>errEndOfBuffer\<close>,
  \<^verbatim>\<open>errExpectedBeginning\<close>).
\<close>

fun malformed :: "error \<Rightarrow> bool" where
  "malformed BadKey = True"
| "malformed BadValue = True"
| "malformed EndOfBuffer = True"
| "malformed ExpectedBeginning = True"
| "malformed _ = False"

definition NewMessage :: message where
  "NewMessage = Message [] fmempty"

definition Get :: "message \<Rightarrow> string \<Rightarrow> gvalue option" where
  "Get m key = fmlookup (data m) key"

definition Keys :: "message \<Rightarrow> string list" where
  "Keys m = keys m"

text \<open>
  \<^verbatim>\<open>addItem\<close> changes the receiver; the model returns the error (if any) together
  with the message after the call. Every \<^verbatim>\<open>return errUnsupportedType\<close> of the
  source comes before the first assignment to \<^verbatim>\<open>m.data\<close>. For a value of kind
  String the source asserts \<^verbatim>\<open>value.(string)\<close> without the \<^verbatim>\<open>ok\<close> result, which
  panics when the type is not \<^verbatim>\<open>string\<close>.
\<close>

definition addItem :: "string \<Rightarrow> gvalue \<Rightarrow> message \<Rightarrow> error option \<times> message" where
  "addItem key val m =
     (let exists = (fmlookup (data m) key \<noteq> None);
          stored = (\<lambda>v. Message (if \<not> exists then keys m @ [key] else keys m)
                               (fmupd key v (data m)))
      in case val of
           GString s \<Rightarrow> (None, stored (GString s))
         | GStrings list \<Rightarrow> (None, stored (GStrings list))
         | GMessage msg \<Rightarrow> (None, stored (GMessage msg))
         | GOther NamedString \<Rightarrow> (Some Panic, m)
         | GOther OtherSlice \<Rightarrow> (Some UnsupportedType, m)
         | GOther NilMessage \<Rightarrow> (None, stored (GOther NilMessage))
         | GOther OtherPtr \<Rightarrow> (Some UnsupportedType, m)
         | GOther OtherKind \<Rightarrow> (Some UnsupportedType, m))"

definition Set :: "string \<Rightarrow> gvalue \<Rightarrow> message \<Rightarrow> error option \<times> message" where
  "Set key val m = addItem key val m"

text \<open>
  \<^verbatim>\<open>Err\<close>: \<^verbatim>\<open>success != "yes"\<close> compares an \<^verbatim>\<open>interface{}\<close> with a string, so
  it is true for every stored value that is not the string \<^verbatim>\<open>"yes"\<close>, a list or a
  section included. The error is built with \<^verbatim>\<open>fmt.Errorf("%v: %v", errCommandFailed,
  m.data["errmsg"])\<close>; the model keeps the second operand, and \<open>fmt_v\<close> gives the
  text \<^verbatim>\<open>%v\<close> prints for it where that text does not depend on addresses.
\<close>

definition Err :: "message \<Rightarrow> error option" where
  "Err m =
     (case fmlookup (data m) ''success'' of
        Some success \<Rightarrow>
          if success \<noteq> GString ''yes'' then Some (CommandFailed (fmlookup (data m) ''errmsg''))
          else None
      | None \<Rightarrow> None)"

fun join_space :: "string list \<Rightarrow> string" where
  "join_space [] = []"
| "join_space [x] = x"
| "join_space (x # y # ys) = x @ '' '' @ join_space (y # ys)"

fun fmt_v :: "gvalue option \<Rightarrow> string option" where
  "fmt_v None = Some ''<nil>''"
| "fmt_v (Some (GString s)) = Some s"
| "fmt_v (Some (GStrings l)) = Some (''['' @ join_space (items l) @ '']'')"
| "fmt_v (Some (GMessage m)) = None"
| "fmt_v (Some (GOther x)) = None"

fun error_text :: "error \<Rightarrow> string option" where
  "error_text (CommandFailed x) = map_option (\<lambda>t. ''vici: command failed: '' @ t) (fmt_v x)"
| "error_text _ = None"

subsection \<open>The encoder\<close>

text \<open>The element type bytes (\<^verbatim>\<open>iota + 1\<close>, so they count from 1).\<close>

definition msgSectionStart :: byte where "msgSectionStart = 1"
definition msgSectionEnd :: byte where "msgSectionEnd = 2"
definition msgKeyValue :: byte where "msgKeyValue = 3"
definition msgListStart :: byte where "msgListStart = 4"
definition msgListItem :: byte where "msgListItem = 5"
definition msgListEnd :: byte where "msgListEnd = 6"

lemmas msg_bytes =
  msgSectionStart_def msgSectionEnd_def msgKeyValue_def msgListStart_def msgListItem_def
  msgListEnd_def

text \<open>
  \<^verbatim>\<open>binary.BigEndian.PutUint16\<close> and \<^verbatim>\<open>binary.BigEndian.Uint16\<close>: the high byte
  first. The lengths are cast with \<^verbatim>\<open>uint8(len(key))\<close> and \<^verbatim>\<open>uint16(len(value))\<close>,
  which wrap around; no length is checked. Writing to a \<^verbatim>\<open>bytes.Buffer\<close> returns no
  error, so the returns of \<^verbatim>\<open>errEncoding\<close> in the source are never taken.
\<close>

definition PutUint16 :: "16 word \<Rightarrow> byte list" where
  "PutUint16 v = [ucast (drop_bit 8 v), ucast v]"

definition Uint16 :: "byte list \<Rightarrow> 16 word" where
  "Uint16 b = (ucast (b ! 1)) OR push_bit 8 (ucast (b ! 0))"

definition encodeKeyValue :: "string \<Rightarrow> string \<Rightarrow> error + byte list" where
  "encodeKeyValue key val =
     (let buf = [msgKeyValue];
          buf = buf @ [of_nat (length key)];
          buf = buf @ bytes key;
          vl = PutUint16 (of_nat (length val));
          buf = buf @ vl;
          buf = buf @ bytes val
      in Inr buf)"

fun encodeItems :: "string list \<Rightarrow> byte list \<Rightarrow> byte list" where
  "encodeItems [] buf = buf"
| "encodeItems (item # list) buf =
     (let buf = buf @ [msgListItem];
          il = PutUint16 (of_nat (length item));
          buf = buf @ il;
          buf = buf @ bytes item
      in encodeItems list buf)"

definition encodeList :: "string \<Rightarrow> strslice \<Rightarrow> error + byte list" where
  "encodeList key list =
     (let buf = [msgListStart];
          buf = buf @ [of_nat (length key)];
          buf = buf @ bytes key;
          buf = encodeItems (items list) buf;
          buf = buf @ [msgListEnd]
      in Inr buf)"

text \<open>
  \<^verbatim>\<open>encode\<close> and \<^verbatim>\<open>encodeSection\<close> run the same loop over \<^verbatim>\<open>elements()\<close>, the
  pairs of a key of \<^verbatim>\<open>keys\<close> and its value in \<^verbatim>\<open>data\<close>, statement for statement:
  \<open>encodeElements\<close> is that loop and \<open>encodeElement\<close> its \<^verbatim>\<open>switch\<close>. A key of
  \<^verbatim>\<open>keys\<close> that \<^verbatim>\<open>data\<close> does not hold gives the nil interface, which is of no
  supported kind. The assertions \<^verbatim>\<open>v.(string)\<close> and \<^verbatim>\<open>v.([]string)\<close> panic when they
  fail, and so does the iteration over a nil \<^verbatim>\<open>*Message\<close>. The recursion ends because
  a stored message is smaller than the map that holds it.
\<close>

lemma fmlookup_size:
  assumes "fmlookup d k = Some v"
  shows "size v < size_fmap (\<lambda>_. 0) size d"
proof -
  have m: "(k, v) |\<in>| fset_of_fmap d"
    using assms fset_of_fmap_iff [of k v d] by simp
  have "Suc (size v) \<le> (\<Sum>x\<in>fset (fset_of_fmap d). Suc (case x of (a, b) \<Rightarrow> 0 + size b))"
    using member_le_sum [OF m, of "\<lambda>x. Suc (case x of (a, b) \<Rightarrow> 0 + size b)"] by simp
  then show ?thesis by simp
qed

function encodeSection :: "string \<Rightarrow> message \<Rightarrow> error + byte list"
  and encodeElements :: "(string, gvalue) fmap \<Rightarrow> string list \<Rightarrow> byte list \<Rightarrow> error + byte list"
  and encodeElement :: "string \<Rightarrow> gvalue option \<Rightarrow> error + byte list"
where
  "encodeSection key section =
     (let buf = [msgSectionStart];
          buf = buf @ [of_nat (length key)];
          buf = buf @ bytes key
      in case encodeElements (data section) (keys section) buf of
           Inl err \<Rightarrow> Inl err
         | Inr buf \<Rightarrow> Inr (buf @ [msgSectionEnd]))"
| "encodeElements d [] buf = Inr buf"
| "encodeElements d (k # ks) buf =
     (case encodeElement k (fmlookup d k) of
        Inl err \<Rightarrow> Inl err
      | Inr dat \<Rightarrow> encodeElements d ks (buf @ dat))"
| "encodeElement k (Some (GString uv)) = encodeKeyValue k uv"
| "encodeElement k (Some (GStrings uv)) = encodeList k uv"
| "encodeElement k (Some (GMessage uv)) = encodeSection k uv"
| "encodeElement k (Some (GOther NamedString)) = Inl Panic"
| "encodeElement k (Some (GOther OtherSlice)) = Inl Panic"
| "encodeElement k (Some (GOther NilMessage)) = Inl Panic"
| "encodeElement k (Some (GOther OtherPtr)) = Inl UnsupportedType"
| "encodeElement k (Some (GOther OtherKind)) = Inl UnsupportedType"
| "encodeElement k None = Inl UnsupportedType"
  by pat_completeness auto
termination
proof (relation "measures
    [\<lambda>x. case x of
           Inl (k, m) \<Rightarrow> Suc (size m)
         | Inr (Inl (d, ks, b)) \<Rightarrow> Suc (size_fmap (\<lambda>_. 0) size d)
         | Inr (Inr (k, None)) \<Rightarrow> 0
         | Inr (Inr (k, Some v)) \<Rightarrow> Suc (size v),
     \<lambda>x. case x of Inr (Inl (d, ks, b)) \<Rightarrow> length ks | _ \<Rightarrow> 0]", goal_cases)
  case 1
  then show ?case by simp
next
  case (2 key sec)
  then show ?case by (cases sec) simp
next
  case (3 d k ks buf)
  then show ?case by (auto split: option.splits dest: fmlookup_size)
next
  case (4 d k ks buf x)
  then show ?case by simp
next
  case (5 k uv)
  then show ?case by simp
qed

declare encodeSection.simps [simp del]

definition encode :: "message \<Rightarrow> error + byte list" where
  "encode m = encodeElements (data m) (keys m) []"

subsection \<open>The decoder\<close>

text \<open>
  \<^verbatim>\<open>buf.Next(n)\<close> returns the next \<open>n\<close> bytes, or all that is left when fewer
  are left: \<open>take n buf\<close>, with \<open>drop n buf\<close> left in the buffer.
  \<^verbatim>\<open>buf.ReadByte()\<close> fails on an empty buffer. The element decoders return the
  number of bytes decoded and change the receiver; the model returns the number and the
  receiver after the call, or the error (the receiver is unchanged then).
\<close>

definition decodeKeyValue :: "byte list \<Rightarrow> message \<Rightarrow> error + (nat \<times> message)" where
  "decodeKeyValue dat m =
     (case dat of
        [] \<Rightarrow> Inl Decoding
      | n # buf \<Rightarrow>
          let keyLen = unat n;
              key = string_of (take keyLen buf);
              buf = drop keyLen buf
          in if length key \<noteq> keyLen then Inl BadKey
             else
               let v = take 2 buf;
                   buf = drop 2 buf
               in if length v \<noteq> 2 then Inl EndOfBuffer
                  else
                    let valueLen = unat (Uint16 v);
                        val = string_of (take valueLen buf)
                    in if length val \<noteq> valueLen then Inl BadValue
                       else
                         case addItem key (GString val) m of
                           (Some err, _) \<Rightarrow> Inl Decoding
                         | (None, m') \<Rightarrow> Inr (keyLen + valueLen + 3, m'))"

lemma drop_Cons_shorter: "y # ys = drop n xs \<Longrightarrow> length ys < length xs"
proof -
  assume h: "y # ys = drop n xs"
  have "length (drop n xs) \<le> length xs" by simp
  with h [symmetric] show ?thesis by simp
qed

text \<open>
  \<^verbatim>\<open>decodeList\<close>: the loop \<^verbatim>\<open>for b != msgListEnd\<close>, entered with the byte read
  after the key and the rest of the buffer. \<^verbatim>\<open>list\<close> starts as the nil slice.
\<close>

function listItems :: "byte \<Rightarrow> byte list \<Rightarrow> strslice \<Rightarrow> nat \<Rightarrow> error + (strslice \<times> nat)" where
  "listItems b buf list count =
     (if b = msgListEnd then Inr (list, count)
      else if b \<noteq> msgListItem then Inl ExpectedBeginning
      else
        let v = take 2 buf;
            buf = drop 2 buf
        in if length v \<noteq> 2 then Inl EndOfBuffer
           else
             let valueLen = unat (Uint16 v);
                 val = string_of (take valueLen buf);
                 buf = drop valueLen buf
             in if length val \<noteq> valueLen then Inl BadValue
                else
                  let list = append_item list val
                  in case buf of
                       [] \<Rightarrow> Inl Decoding
                     | b # buf \<Rightarrow> listItems b buf list (count + valueLen + 3))"
  by pat_completeness auto
termination
  by (relation "measure (\<lambda>(b, buf, list, count). length buf)") (auto dest!: drop_Cons_shorter)

declare listItems.simps [simp del]

definition decodeList :: "byte list \<Rightarrow> message \<Rightarrow> error + (nat \<times> message)" where
  "decodeList dat m =
     (case dat of
        [] \<Rightarrow> Inl Decoding
      | n # buf \<Rightarrow>
          let keyLen = unat n;
              key = string_of (take keyLen buf);
              buf = drop keyLen buf
          in if length key \<noteq> keyLen then Inl BadKey
             else
               case buf of
                 [] \<Rightarrow> Inl Decoding
               | b # buf \<Rightarrow>
                   (case listItems b buf NilSlice (keyLen + 2) of
                      Inl err \<Rightarrow> Inl err
                    | Inr (list, count) \<Rightarrow>
                        (case addItem key (GStrings list) m of
                           (Some err, _) \<Rightarrow> Inl Decoding
                         | (None, m') \<Rightarrow> Inr (count, m'))))"

text \<open>
  \<^verbatim>\<open>decodeSection\<close> and its loop \<^verbatim>\<open>for b != msgSectionEnd\<close>. The elements are
  decoded into a new message \<^verbatim>\<open>section\<close>, which is added to the receiver once the
  end marker is read. Each element decoder gets \<^verbatim>\<open>buf.Bytes()\<close>, the unread bytes,
  and its count \<^verbatim>\<open>n\<close> is skipped with \<^verbatim>\<open>buf.Next(n)\<close>.
\<close>

function decodeSection :: "byte list \<Rightarrow> message \<Rightarrow> error + (nat \<times> message)"
  and sectionElements :: "byte \<Rightarrow> byte list \<Rightarrow> message \<Rightarrow> nat \<Rightarrow> error + (message \<times> nat)"
where
  "decodeSection dat m =
     (let section = NewMessage
      in case dat of
           [] \<Rightarrow> Inl Decoding
         | n # buf \<Rightarrow>
             let keyLen = unat n;
                 key = string_of (take keyLen buf);
                 buf = drop keyLen buf
             in if length key \<noteq> keyLen then Inl BadKey
                else
                  case buf of
                    [] \<Rightarrow> Inl Decoding
                  | b # buf \<Rightarrow>
                      (case sectionElements b buf section (keyLen + 2) of
                         Inl err \<Rightarrow> Inl err
                       | Inr (section, count) \<Rightarrow>
                           (case addItem key (GMessage section) m of
                              (Some err, _) \<Rightarrow> Inl err
                            | (None, m') \<Rightarrow> Inr (count, m'))))"
| "sectionElements b buf section count =
     (if b = msgSectionEnd then Inr (section, count)
      else
        case (if b = msgKeyValue then decodeKeyValue buf section
              else if b = msgListStart then decodeList buf section
              else if b = msgSectionStart then decodeSection buf section
              else Inl ExpectedBeginning) of
          Inl err \<Rightarrow> Inl err
        | Inr (n, section) \<Rightarrow>
            (case drop n buf of
               [] \<Rightarrow> Inl Decoding
             | b # buf \<Rightarrow> sectionElements b buf section (count + n + 1)))"
  by pat_completeness auto
termination
  by (relation "measure (\<lambda>x. case x of
          Inl (dat, m) \<Rightarrow> 2 * length dat + 1
        | Inr (b, buf, s, c) \<Rightarrow> 2 * length buf + 2)")
    (auto dest!: drop_Cons_shorter drop_Cons_shorter [OF sym])

declare decodeSection.simps [simp del] sectionElements.simps [simp del]

text \<open>
  \<^verbatim>\<open>decode\<close>: one byte is read before the loop and one at the end of each round;
  \<^verbatim>\<open>io.EOF\<close> is let through, and \<^verbatim>\<open>ReadByte\<close> then returns the byte 0. The
  loop runs while \<^verbatim>\<open>buf.Len() > 0\<close>, tested after the type byte is read. Its
  \<^verbatim>\<open>switch\<close> has no \<^verbatim>\<open>default\<close>: for any other byte nothing is decoded and
  nothing is skipped. When the decoder fails, the receiver keeps the elements added
  before the failure; the model returns the error alone.
\<close>

function decodeElements :: "byte \<Rightarrow> byte list \<Rightarrow> message \<Rightarrow> error + message" where
  "decodeElements b buf m =
     (if \<not> length buf > 0 then Inr m
      else
        case (if b = msgKeyValue then decodeKeyValue buf m
              else if b = msgListStart then decodeList buf m
              else if b = msgSectionStart then decodeSection buf m
              else Inr (0, m)) of
          Inl err \<Rightarrow> Inl err
        | Inr (n, m) \<Rightarrow>
            (case drop n buf of
               [] \<Rightarrow> decodeElements 0 [] m
             | b # buf \<Rightarrow> decodeElements b buf m))"
  by pat_completeness auto
termination
  by (relation "measure (\<lambda>(b, buf, m). length buf)")
    (auto dest!: drop_Cons_shorter [OF sym])

declare decodeElements.simps [simp del]

definition decode :: "byte list \<Rightarrow> message \<Rightarrow> error + message" where
  "decode dat m =
     (case dat of
        [] \<Rightarrow> decodeElements 0 [] m
      | b # buf \<Rightarrow> decodeElements b buf m)"

subsection \<open>The schema mapper\<close>

text \<open>
  The values that \<^verbatim>\<open>marshal\<close> and \<^verbatim>\<open>unmarshal\<close> reach through \<^verbatim>\<open>reflect\<close>, split
  by the kinds and types the source tells apart: a \<^verbatim>\<open>string\<close>; a value of kind String
  of another type; a \<^verbatim>\<open>[]string\<close>; a slice of another type (the flag says whether it
  is nil); an array (the flag says whether it is the zero array); a \<^verbatim>\<open>*Message\<close>
  (\<open>None\<close> when nil); a pointer to a struct (\<open>None\<close> when nil); a pointer to anything
  else (the flag says whether it is nil); a struct, as the list of its fields; a value
  of any other comparable kind, such as an integer (the flag says whether it is zero);
  and a value of a kind that \<^verbatim>\<open>==\<close> cannot compare (a map or a function). A field has
  the value of its \<^verbatim>\<open>vici\<close> tag (empty when it has none), is exported or not, and
  holds a value. A pointer to a struct is modelled by the struct it points to.
\<close>

datatype fvalue =
    FString string
  | FNamedString string
  | FStrings strslice
  | FOtherSlice bool
  | FArray bool
  | FMessage "message option"
  | FStructPtr "sfield list option"
  | FOtherPtr bool
  | FStruct "sfield list"
  | FOther bool
  | FUncomparable
and sfield = SField (tag: string) (exported: bool) (fval: fvalue)

text \<open>\<^verbatim>\<open>newMessageTag\<close>: a tag \<^verbatim>\<open>-\<close> or no tag sets \<^verbatim>\<open>skip\<close> and leaves the name empty.\<close>

record messageTag =
  name :: string
  skip :: bool

definition newMessageTag :: "string \<Rightarrow> messageTag" where
  "newMessageTag t =
     (if t = ''-'' \<or> t = '''' then \<lparr>name = '''', skip = True\<rparr>
      else \<lparr>name = t, skip = False\<rparr>)"

text \<open>\<^verbatim>\<open>rv.Interface()\<close>, as the value that \<^verbatim>\<open>addItem\<close> is then given.\<close>

fun Interface :: "fvalue \<Rightarrow> gvalue" where
  "Interface (FString s) = GString s"
| "Interface (FNamedString s) = GOther NamedString"
| "Interface (FStrings l) = GStrings l"
| "Interface (FOtherSlice n) = GOther OtherSlice"
| "Interface (FArray z) = GOther OtherSlice"
| "Interface (FMessage (Some m)) = GMessage m"
| "Interface (FMessage None) = GOther NilMessage"
| "Interface (FStructPtr p) = GOther OtherPtr"
| "Interface (FOtherPtr n) = GOther OtherPtr"
| "Interface (FStruct fs) = GOther OtherKind"
| "Interface (FOther z) = GOther OtherKind"
| "Interface FUncomparable = GOther OtherKind"

text \<open>
  \<^verbatim>\<open>emptyMessageElement\<close>. A slice is empty when it is nil; a struct when all its
  fields are, each tested only while the ones before it were empty (\<^verbatim>\<open>z && \<dots>\<close>);
  any other value when it equals the zero value of its type. That comparison calls
  \<^verbatim>\<open>rv.Interface()\<close>, which panics for a value reached through an unexported field
  (the first argument of the model), and comparing two values of a kind that cannot be
  compared panics as well.
\<close>

fun emptyMessageElement :: "bool \<Rightarrow> fvalue \<Rightarrow> error + bool"
  and emptyFields :: "bool \<Rightarrow> sfield list \<Rightarrow> bool \<Rightarrow> error + bool"
where
  "emptyMessageElement ro (FStrings l) = Inr (IsNil l)"
| "emptyMessageElement ro (FOtherSlice n) = Inr n"
| "emptyMessageElement ro (FStruct fs) = emptyFields ro fs True"
| "emptyMessageElement ro (FString s) = (if ro then Inl Panic else Inr (s = ''''))"
| "emptyMessageElement ro (FNamedString s) = (if ro then Inl Panic else Inr (s = ''''))"
| "emptyMessageElement ro (FArray z) = (if ro then Inl Panic else Inr z)"
| "emptyMessageElement ro (FMessage p) = (if ro then Inl Panic else Inr (p = None))"
| "emptyMessageElement ro (FStructPtr p) = (if ro then Inl Panic else Inr (p = None))"
| "emptyMessageElement ro (FOtherPtr n) = (if ro then Inl Panic else Inr n)"
| "emptyMessageElement ro (FOther z) = (if ro then Inl Panic else Inr z)"
| "emptyMessageElement ro FUncomparable = Inl Panic"
| "emptyFields ro [] z = Inr z"
| "emptyFields ro (SField t ex v # fs) z =
     (if z then
        (case emptyMessageElement (ro \<or> \<not> ex) v of
           Inl e \<Rightarrow> Inl e
         | Inr z' \<Rightarrow> emptyFields ro fs z')
      else emptyFields ro fs False)"

text \<open>
  \<^verbatim>\<open>marshal\<close>, the loop over the fields and \<^verbatim>\<open>marshalField\<close>. The receiver is
  changed by \<^verbatim>\<open>addItem\<close>; the model returns it, or the error. A \<^verbatim>\<open>*Message\<close> given
  to \<^verbatim>\<open>marshal\<close> itself is a pointer to a struct whose two fields have no tag.
\<close>

definition added :: "error option \<times> message \<Rightarrow> error + message" where
  "added r = (case r of (Some err, m) \<Rightarrow> Inl err | (None, m) \<Rightarrow> Inr m)"

fun marshal :: "fvalue \<Rightarrow> message \<Rightarrow> error + message"
  and marshalFields :: "sfield list \<Rightarrow> message \<Rightarrow> error + message"
  and marshalField :: "string \<Rightarrow> fvalue \<Rightarrow> message \<Rightarrow> error + message"
where
  "marshal (FStruct fs) m = marshalFields fs m"
| "marshal (FStructPtr (Some fs)) m = marshalFields fs m"
| "marshal (FMessage (Some x)) m = Inr m"
| "marshal (FStructPtr None) m = Inl MarshalUnsupportedType"
| "marshal (FMessage None) m = Inl MarshalUnsupportedType"
| "marshal (FOtherPtr n) m = Inl MarshalUnsupportedType"
| "marshal (FString s) m = Inl MarshalUnsupportedType"
| "marshal (FNamedString s) m = Inl MarshalUnsupportedType"
| "marshal (FStrings l) m = Inl MarshalUnsupportedType"
| "marshal (FOtherSlice n) m = Inl MarshalUnsupportedType"
| "marshal (FArray z) m = Inl MarshalUnsupportedType"
| "marshal (FOther z) m = Inl MarshalUnsupportedType"
| "marshal FUncomparable m = Inl MarshalUnsupportedType"
| "marshalFields [] m = Inr m"
| "marshalFields (SField t ex v # fs) m =
     (let mt = newMessageTag t
      in if skip mt then marshalFields fs m
         else if \<not> ex then marshalFields fs m
         else
           case emptyMessageElement False v of
             Inl err \<Rightarrow> Inl err
           | Inr True \<Rightarrow> marshalFields fs m
           | Inr False \<Rightarrow>
               (case marshalField (name mt) v m of
                  Inl err \<Rightarrow> Inl err
                | Inr m' \<Rightarrow> marshalFields fs m'))"
| "marshalField nm (FString s) m = added (addItem nm (Interface (FString s)) m)"
| "marshalField nm (FNamedString s) m = added (addItem nm (Interface (FNamedString s)) m)"
| "marshalField nm (FStrings l) m = added (addItem nm (Interface (FStrings l)) m)"
| "marshalField nm (FOtherSlice n) m = added (addItem nm (Interface (FOtherSlice n)) m)"
| "marshalField nm (FArray z) m = added (addItem nm (Interface (FArray z)) m)"
| "marshalField nm (FMessage p) m = added (addItem nm (Interface (FMessage p)) m)"
| "marshalField nm (FStructPtr p) m =
     (case marshal (FStructPtr p) NewMessage of
        Inl err \<Rightarrow> Inl err
      | Inr msg \<Rightarrow> added (addItem nm (GMessage msg) m))"
| "marshalField nm (FOtherPtr n) m =
     (case marshal (FOtherPtr n) NewMessage of
        Inl err \<Rightarrow> Inl err
      | Inr msg \<Rightarrow> added (addItem nm (GMessage msg) m))"
| "marshalField nm (FStruct fs) m =
     (case marshal (FStruct fs) NewMessage of
        Inl err \<Rightarrow> Inl err
      | Inr msg \<Rightarrow> added (addItem nm (GMessage msg) m))"
| "marshalField nm (FOther z) m = Inl MarshalUnsupportedType"
| "marshalField nm FUncomparable m = Inl MarshalUnsupportedType"

text \<open>
  \<^verbatim>\<open>reflect.Zero\<close> of the type of a value, which is also what \<^verbatim>\<open>reflect.New\<close>
  points to, and a measure of nesting that it does not increase.
\<close>

fun Zero :: "fvalue \<Rightarrow> fvalue"
  and zero_fields :: "sfield list \<Rightarrow> sfield list"
where
  "Zero (FString s) = FString ''''"
| "Zero (FNamedString s) = FNamedString ''''"
| "Zero (FStrings l) = FStrings NilSlice"
| "Zero (FOtherSlice n) = FOtherSlice True"
| "Zero (FArray z) = FArray True"
| "Zero (FMessage p) = FMessage None"
| "Zero (FStructPtr p) = FStructPtr None"
| "Zero (FOtherPtr n) = FOtherPtr True"
| "Zero (FStruct fs) = FStruct (zero_fields fs)"
| "Zero (FOther z) = FOther True"
| "Zero FUncomparable = FUncomparable"
| "zero_fields [] = []"
| "zero_fields (SField t ex v # fs) = SField t ex (Zero v) # zero_fields fs"

fun weight :: "fvalue \<Rightarrow> nat"
  and weights :: "sfield list \<Rightarrow> nat"
where
  "weight (FStruct fs) = Suc (weights fs)"
| "weight (FStructPtr (Some fs)) = Suc (weights fs)"
| "weight (FStructPtr None) = 0"
| "weight (FString s) = 0"
| "weight (FNamedString s) = 0"
| "weight (FStrings l) = 0"
| "weight (FOtherSlice n) = 0"
| "weight (FArray z) = 0"
| "weight (FMessage p) = 0"
| "weight (FOtherPtr n) = 0"
| "weight (FOther z) = 0"
| "weight FUncomparable = 0"
| "weights [] = 0"
| "weights (SField t ex v # fs) = Suc (weight v + weights fs)"

lemma weight_Zero:
  "weight (Zero v) \<le> weight v"
  "weights (zero_fields fs) \<le> weights fs"
  by (induction v and fs rule: Zero_zero_fields.induct) simp_all

text \<open>
  \<^verbatim>\<open>unmarshal\<close>, the loop over the fields of the target and \<^verbatim>\<open>unmarshalField\<close>.
  The model returns the target after the call, or the error (the fields set before the
  error are not reported then). The loop looks \<^verbatim>\<open>tag.name\<close> up in \<^verbatim>\<open>m.data\<close>
  and does not read \<^verbatim>\<open>tag.skip\<close>. \<^verbatim>\<open>field.Set\<close> panics when the value is not
  assignable to the type of the field. A struct field is unmarshalled into a new zero
  struct, which then replaces the field. \<open>unmarshalNil\<close> is \<^verbatim>\<open>unmarshal\<close> called on
  a nil \<^verbatim>\<open>*Message\<close>, which panics when it first reads \<^verbatim>\<open>m.data\<close>.
\<close>

fun unmarshalNil :: "fvalue \<Rightarrow> error + fvalue" where
  "unmarshalNil (FStructPtr None) = Inl UnmarshalBadType"
| "unmarshalNil (FStructPtr (Some [])) = Inr (FStructPtr (Some []))"
| "unmarshalNil (FStructPtr (Some (f # fs))) = Inl Panic"
| "unmarshalNil (FOtherPtr n) = (if n then Inl UnmarshalBadType else Inl Panic)"
| "unmarshalNil (FMessage None) = Inl UnmarshalBadType"
| "unmarshalNil (FMessage (Some x)) = Inl Panic"
| "unmarshalNil v = Inl UnmarshalBadType"

text \<open>\<^verbatim>\<open>reflect.Indirect\<close> of a pointer to a struct.\<close>

fun Indirect :: "fvalue \<Rightarrow> fvalue" where
  "Indirect (FStructPtr (Some fs)) = FStruct fs"
| "Indirect v = v"

function unmarshal :: "message \<Rightarrow> fvalue \<Rightarrow> error + fvalue"
  and unmarshalFields :: "message \<Rightarrow> sfield list \<Rightarrow> error + sfield list"
  and unmarshalField :: "fvalue \<Rightarrow> gvalue \<Rightarrow> error + fvalue"
where
  "unmarshal m (FStructPtr None) = Inl UnmarshalBadType"
| "unmarshal m (FStructPtr (Some fs)) =
     (case unmarshalFields m fs of
        Inl err \<Rightarrow> Inl err
      | Inr fs' \<Rightarrow> Inr (FStructPtr (Some fs')))"
| "unmarshal m (FMessage None) = Inl UnmarshalBadType"
| "unmarshal m (FMessage (Some x)) = Inr (FMessage (Some x))"
| "unmarshal m (FOtherPtr n) = (if n then Inl UnmarshalBadType else Inl Panic)"
| "unmarshal m (FString s) = Inl UnmarshalBadType"
| "unmarshal m (FNamedString s) = Inl UnmarshalBadType"
| "unmarshal m (FStrings l) = Inl UnmarshalBadType"
| "unmarshal m (FOtherSlice n) = Inl UnmarshalBadType"
| "unmarshal m (FArray z) = Inl UnmarshalBadType"
| "unmarshal m (FStruct fs) = Inl UnmarshalBadType"
| "unmarshal m (FOther z) = Inl UnmarshalBadType"
| "unmarshal m FUncomparable = Inl UnmarshalBadType"
| "unmarshalFields m [] = Inr []"
| "unmarshalFields m (SField t ex v # fs) =
     (let tg = newMessageTag t
      in case fmlookup (data m) (name tg) of
           None \<Rightarrow>
             (case unmarshalFields m fs of
                Inl err \<Rightarrow> Inl err
              | Inr fs' \<Rightarrow> Inr (SField t ex v # fs'))
         | Some val \<Rightarrow>
             if \<not> ex then
               (case unmarshalFields m fs of
                  Inl err \<Rightarrow> Inl err
                | Inr fs' \<Rightarrow> Inr (SField t ex v # fs'))
             else
               (case unmarshalField v val of
                  Inl err \<Rightarrow> Inl err
                | Inr v' \<Rightarrow>
                    (case unmarshalFields m fs of
                       Inl err \<Rightarrow> Inl err
                     | Inr fs' \<Rightarrow> Inr (SField t ex v' # fs'))))"
| "unmarshalField (FString s) rv =
     (case rv of GString x \<Rightarrow> Inr (FString x) | _ \<Rightarrow> Inl UnmarshalTypeMismatch)"
| "unmarshalField (FNamedString s) rv =
     (case rv of GString x \<Rightarrow> Inl Panic | _ \<Rightarrow> Inl UnmarshalTypeMismatch)"
| "unmarshalField (FStrings l) rv =
     (case rv of GStrings x \<Rightarrow> Inr (FStrings x) | _ \<Rightarrow> Inl UnmarshalTypeMismatch)"
| "unmarshalField (FOtherSlice n) rv =
     (case rv of GStrings x \<Rightarrow> Inl Panic | _ \<Rightarrow> Inl UnmarshalTypeMismatch)"
| "unmarshalField (FMessage p) rv =
     (case rv of
        GMessage x \<Rightarrow> Inr (FMessage (Some x))
      | GOther NilMessage \<Rightarrow> Inr (FMessage None)
      | _ \<Rightarrow> Inl Panic)"
| "unmarshalField (FStructPtr p) rv =
     (case rv of
        GMessage msg \<Rightarrow> unmarshal msg (FStructPtr p)
      | GOther NilMessage \<Rightarrow> unmarshalNil (FStructPtr p)
      | _ \<Rightarrow> Inl UnmarshalNonMessage)"
| "unmarshalField (FOtherPtr n) rv =
     (case rv of
        GMessage msg \<Rightarrow> unmarshal msg (FOtherPtr n)
      | GOther NilMessage \<Rightarrow> unmarshalNil (FOtherPtr n)
      | _ \<Rightarrow> Inl UnmarshalNonMessage)"
| "unmarshalField (FStruct fs) rv =
     (case rv of
        GMessage msg \<Rightarrow>
          (case unmarshal msg (FStructPtr (Some (zero_fields fs))) of
             Inl err \<Rightarrow> Inl err
           | Inr fp \<Rightarrow> Inr (Indirect fp))
      | GOther NilMessage \<Rightarrow>
          (case unmarshalNil (FStructPtr (Some (zero_fields fs))) of
             Inl err \<Rightarrow> Inl err
           | Inr fp \<Rightarrow> Inr (Indirect fp))
      | _ \<Rightarrow> Inl UnmarshalNonMessage)"
| "unmarshalField (FArray z) rv = Inr (FArray z)"
| "unmarshalField (FOther z) rv = Inr (FOther z)"
| "unmarshalField FUncomparable rv = Inr FUncomparable"
  by pat_completeness auto
termination
proof (relation "measures
    [\<lambda>x. case x of
            Inl (m, v) \<Rightarrow> weight v
          | Inr (Inl (m, fs)) \<Rightarrow> weights fs
          | Inr (Inr (v, rv)) \<Rightarrow> weight v,
     \<lambda>x. case x of
            Inl (m, v) \<Rightarrow> 1
          | Inr (Inl (m, fs)) \<Rightarrow> 0
          | Inr (Inr (v, rv)) \<Rightarrow> 2]", goal_cases)
  case (9 fs rv msg)
  then show ?case using weight_Zero(2) [of fs] by auto
qed auto

subsection \<open>Predicates of the statements\<close>

text \<open>The element types \<^verbatim>\<open>Set\<close> supports: a string, a \<^verbatim>\<open>[]string\<close>, a message.\<close>

fun supported :: "gvalue \<Rightarrow> bool" where
  "supported (GString s) = True"
| "supported (GStrings l) = True"
| "supported (GMessage m) = True"
| "supported (GOther x) = False"

text \<open>
  The well-formed messages of the wire format: every key has 1 to 255 bytes, every
  value and list item at most 65535 bytes, every element is a string, a
  \<^verbatim>\<open>[]string\<close> or a message that is well-formed itself. A message is the struct
  that \<^verbatim>\<open>NewMessage\<close> and \<^verbatim>\<open>Set\<close> build: \<^verbatim>\<open>keys\<close> lists the keys of
  \<^verbatim>\<open>data\<close>, each once.
\<close>

function wf_element :: "gvalue option \<Rightarrow> bool"
  and wf_message :: "message \<Rightarrow> bool"
where
  "wf_element (Some (GString s)) = (length s \<le> 65535)"
| "wf_element (Some (GStrings l)) = (\<forall>i \<in> set (items l). length i \<le> 65535)"
| "wf_element (Some (GMessage m)) = wf_message m"
| "wf_element (Some (GOther x)) = False"
| "wf_element None = False"
| "wf_message (Message ks d) =
     (distinct ks \<and> fmdom' d = set ks
      \<and> (\<forall>k \<in> set ks. 1 \<le> length k \<and> length k \<le> 255 \<and> wf_element (fmlookup d k)))"
  by pat_completeness auto
termination
proof (relation "measure (\<lambda>x. case x of
           Inl None \<Rightarrow> 0
         | Inl (Some v) \<Rightarrow> Suc (size v)
         | Inr m \<Rightarrow> Suc (size m))", goal_cases)
  case 1
  then show ?case by simp
next
  case (2 m)
  then show ?case by simp
next
  case (3 ks d k)
  then show ?case by (auto split: option.splits dest: fmlookup_size)
qed

text \<open>
  Structural equality of messages, order of keys included, with a list taken as its
  sequence of items: \<open>canon\<close> writes every list without items as the nil slice, which
  is what \<^verbatim>\<open>decodeList\<close> builds for it, and two messages are the same when their
  canonical forms are equal.
\<close>

primrec canon_value :: "gvalue \<Rightarrow> gvalue"
  and canon :: "message \<Rightarrow> message"
where
  "canon_value (GString s) = GString s"
| "canon_value (GStrings l) = GStrings (if items l = [] then NilSlice else Slice (items l))"
| "canon_value (GMessage m) = GMessage (canon m)"
| "canon_value (GOther x) = GOther x"
| "canon (Message ks d) = Message ks (fmmap canon_value d)"

definition same_message :: "message \<Rightarrow> message \<Rightarrow> bool" where
  "same_message a b = (canon a = canon b)"

text \<open>
  The message after \<^verbatim>\<open>addItem\<close> has stored a value; the \<^verbatim>\<open>switch\<close> of
  \<^verbatim>\<open>decodeSection\<close> on the type byte, which is that of \<^verbatim>\<open>decode\<close> for the three
  bytes that start an element; what the decoder builds by adding the elements of a
  map in the order of a list of keys.
\<close>

definition with_item :: "string \<Rightarrow> gvalue \<Rightarrow> message \<Rightarrow> message" where
  "with_item k v m =
     Message (if fmlookup (data m) k = None then keys m @ [k] else keys m) (fmupd k v (data m))"

definition decodeElement :: "byte \<Rightarrow> byte list \<Rightarrow> message \<Rightarrow> error + (nat \<times> message)" where
  "decodeElement t buf m =
     (if t = msgKeyValue then decodeKeyValue buf m
      else if t = msgListStart then decodeList buf m
      else if t = msgSectionStart then decodeSection buf m
      else Inl ExpectedBeginning)"

definition element_start :: "byte \<Rightarrow> bool" where
  "element_start t = (t = msgKeyValue \<or> t = msgListStart \<or> t = msgSectionStart)"

definition elem_ok :: "string \<Rightarrow> gvalue \<Rightarrow> bool" where
  "elem_ok k v \<longleftrightarrow>
     (\<exists>t body. encodeElement k (Some v) = Inr (t # body) \<and> body \<noteq> [] \<and> element_start t
        \<and> (\<forall>rest m. decodeElement t (body @ rest) m
                      = Inr (length body, with_item k (canon_value v) m)))"

definition rebuilt :: "(string, gvalue) fmap \<Rightarrow> string list \<Rightarrow> message \<Rightarrow> message" where
  "rebuilt d ks m = fold (\<lambda>k. with_item k (canon_value (the (fmlookup d k)))) ks m"

text \<open>
  Inputs that end too early. \<open>cut_element t buf e\<close> describes the bytes \<open>buf\<close> that
  follow the type byte \<open>t\<close> of an element up to the end of the input, when the element
  is cut short, and names the error of the source for it: a key length byte that
  declares more bytes than are left; a value or list item whose two length bytes are
  not both there, or declare more bytes than are left; a list or a section, started and
  holding well-formed items or elements, that the input ends before its end marker; an
  element inside a section with not even its key length byte; and any of these inside a
  section that started with well-formed elements.
\<close>

inductive cut_element :: "byte \<Rightarrow> byte list \<Rightarrow> error \<Rightarrow> bool" where
  short_key:
    "element_start t \<Longrightarrow> length rest < unat n \<Longrightarrow> cut_element t (n # rest) BadKey"
| short_value_length:
    "length key = unat n \<Longrightarrow> length rest < 2 \<Longrightarrow>
     cut_element msgKeyValue (n # key @ rest) EndOfBuffer"
| short_value:
    "length key = unat n \<Longrightarrow> length rest < unat (Uint16 [h, l]) \<Longrightarrow>
     cut_element msgKeyValue (n # key @ h # l # rest) BadValue"
| short_item_length:
    "length key = unat n \<Longrightarrow> \<forall>i\<in>set xs. length i \<le> 65535 \<Longrightarrow> length rest < 2 \<Longrightarrow>
     cut_element msgListStart (n # key @ encodeItems xs [] @ msgListItem # rest) EndOfBuffer"
| short_item:
    "length key = unat n \<Longrightarrow> \<forall>i\<in>set xs. length i \<le> 65535 \<Longrightarrow>
     length rest < unat (Uint16 [h, l]) \<Longrightarrow>
     cut_element msgListStart (n # key @ encodeItems xs [] @ msgListItem # h # l # rest) BadValue"
| open_list:
    "length key = unat n \<Longrightarrow> \<forall>i\<in>set xs. length i \<le> 65535 \<Longrightarrow>
     cut_element msgListStart (n # key @ encodeItems xs []) Decoding"
| open_section:
    "length key = unat n \<Longrightarrow> wf_message s \<Longrightarrow> encode s = Inr body \<Longrightarrow>
     cut_element msgSectionStart (n # key @ body) Decoding"
| no_key_length:
    "element_start t \<Longrightarrow> cut_element t [] Decoding"
| in_section:
    "length key = unat n \<Longrightarrow> wf_message s \<Longrightarrow> encode s = Inr body \<Longrightarrow>
     cut_element t buf e \<Longrightarrow>
     cut_element msgSectionStart (n # key @ body @ t # buf) e"

text \<open>
  A record all of whose fields hold the zero value of their type, and that
  \<^verbatim>\<open>emptyMessageElement\<close> can read: the fields of its nested structs are exported and
  no value is of a kind that cannot be compared.
\<close>

fun readable :: "fvalue \<Rightarrow> bool"
  and readable_fields :: "sfield list \<Rightarrow> bool"
where
  "readable (FStruct fs) = readable_fields fs"
| "readable FUncomparable = False"
| "readable (FString s) = True"
| "readable (FNamedString s) = True"
| "readable (FStrings l) = True"
| "readable (FOtherSlice n) = True"
| "readable (FArray z) = True"
| "readable (FMessage p) = True"
| "readable (FStructPtr p) = True"
| "readable (FOtherPtr n) = True"
| "readable (FOther z) = True"
| "readable_fields [] = True"
| "readable_fields (SField t ex v # fs) = (ex \<and> readable v \<and> readable_fields fs)"

definition all_zero :: "sfield list \<Rightarrow> bool" where
  "all_zero fs = (\<forall>f\<in>set fs. Zero (fval f) = fval f \<and> readable (fval f))"

text \<open>
  The invariant of the struct: \<^verbatim>\<open>keys\<close> lists the keys of \<^verbatim>\<open>data\<close>, each once.
\<close>

definition keys_listed :: "message \<Rightarrow> bool" where
  "keys_listed m = (distinct (keys m) \<and> fmdom' (data m) = set (keys m))"

section \<open>Properties\<close>

subsection \<open>The message tree\<close>

text \<open>
  Claim C10. When \<^verbatim>\<open>Set\<close> fails with \<^verbatim>\<open>errUnsupportedType\<close>, the message is
  unchanged: the message after the call is the message before it, so \<^verbatim>\<open>Keys\<close> is the
  same sequence and every key has the element it had.
\<close>

theorem set_unsupported_unchanged:
  assumes "Set k v m = (Some UnsupportedType, m')"
  shows "m' = m \<and> Keys m' = Keys m \<and> (\<forall>k'. Get m' k' = Get m k')"
  using assms
  by (auto simp: Set_def addItem_def Let_def split: gvalue.splits other.splits)

theorem set_unsupported_unchanged_witness:
  "Set ''k'' (GOther OtherKind) (Message [''a''] (fmupd ''a'' (GString ''x'') fmempty))
     = (Some UnsupportedType, Message [''a''] (fmupd ''a'' (GString ''x'') fmempty))
   \<and> Keys (Message [''a''] (fmupd ''a'' (GString ''x'') fmempty)) = [''a'']"
  using set_unsupported_unchanged [of "''k''" "GOther OtherKind"
      "Message [''a''] (fmupd ''a'' (GString ''x'') fmempty)"
      "Message [''a''] (fmupd ''a'' (GString ''x'') fmempty)"]
  by (simp add: Set_def addItem_def Keys_def)

text \<open>
  Claim C8. \<^verbatim>\<open>Set\<close> with a supported value succeeds; afterwards the key holds the
  new value and every other key holds what it held. When the key was present
  (\<^verbatim>\<open>Get\<close> found it) \<^verbatim>\<open>Keys\<close> is the same sequence as before; when it was not, the
  key is appended as the last element of \<^verbatim>\<open>Keys\<close>.
\<close>

theorem set_overwrites_in_place:
  assumes "supported v"
  shows "\<exists>m'. Set k v m = (None, m')
           \<and> Get m' k = Some v
           \<and> (\<forall>k'. k' \<noteq> k \<longrightarrow> Get m' k' = Get m k')
           \<and> Keys m' = (if Get m k \<noteq> None then Keys m else Keys m @ [k])"
  using assms
  by (cases v) (auto simp: Set_def addItem_def Let_def Get_def Keys_def)

theorem set_overwrites_in_place_witness:
  "supported (GString ''new'')
   \<and> Set ''a'' (GString ''new'')
        (Message [''a'', ''b''] (fmupd ''a'' (GString ''x'') (fmupd ''b'' (GString ''y'') fmempty)))
      = (None, Message [''a'', ''b'']
          (fmupd ''a'' (GString ''new'') (fmupd ''a'' (GString ''x'') (fmupd ''b'' (GString ''y'') fmempty))))
   \<and> Keys (Message [''a'', ''b'']
          (fmupd ''a'' (GString ''new'') (fmupd ''a'' (GString ''x'') (fmupd ''b'' (GString ''y'') fmempty))))
      = [''a'', ''b'']"
  using set_overwrites_in_place [of "GString ''new''" "''a''"
      "Message [''a'', ''b''] (fmupd ''a'' (GString ''x'') (fmupd ''b'' (GString ''y'') fmempty))"]
  by (simp add: Set_def addItem_def Keys_def Get_def)

text \<open>
  \<^verbatim>\<open>NewMessage\<close> establishes the invariant of the struct and \<^verbatim>\<open>Set\<close> keeps it,
  whether it succeeds or fails; under it a key is present in \<^verbatim>\<open>data\<close> exactly when
  \<^verbatim>\<open>Keys\<close> lists it.
\<close>

lemma keys_listed_NewMessage: "keys_listed NewMessage"
  by (simp add: keys_listed_def NewMessage_def)

lemma keys_listed_with_item:
  assumes "keys_listed m"
  shows "keys_listed (with_item k v m)"
proof -
  from assms have d: "distinct (keys m)" and dom: "fmdom' (data m) = set (keys m)"
    by (simp_all add: keys_listed_def)
  have listed: "k \<in> set (keys m) \<longleftrightarrow> fmlookup (data m) k \<noteq> None"
    using dom fmlookup_dom'_iff [of k "data m"] by auto
  show ?thesis
  proof (cases "fmlookup (data m) k")
    case None
    with listed have "k \<notin> set (keys m)" by simp
    with d dom None show ?thesis
      by (simp add: keys_listed_def with_item_def)
  next
    case (Some x)
    with listed have "k \<in> set (keys m)" by simp
    with d dom Some show ?thesis
      by (auto simp: keys_listed_def with_item_def)
  qed
qed

lemma addItem_cases:
  "addItem k v m = (e, m') \<Longrightarrow> m' = m \<or> m' = with_item k v m"
  by (cases v) (auto simp: addItem_def with_item_def Let_def split: other.splits)

lemma keys_listed_Set:
  assumes "keys_listed m" and "Set k v m = (e, m')"
  shows "keys_listed m'"
  using addItem_cases [of k v m e m'] assms keys_listed_with_item [OF assms(1), of k v]
  by (auto simp: Set_def)

lemma present_iff_listed:
  assumes "keys_listed m"
  shows "(Get m k \<noteq> None) = (k \<in> set (Keys m))"
proof -
  from assms have dom: "fmdom' (data m) = set (keys m)"
    by (simp add: keys_listed_def)
  have "k \<in> set (keys m) \<longleftrightarrow> fmlookup (data m) k \<noteq> None"
    using dom fmlookup_dom'_iff [of k "data m"] by auto
  then show ?thesis by (simp add: Get_def Keys_def)
qed

text \<open>
  Claim C6, as stated, fails twice. A reply with \<^verbatim>\<open>success = "no"\<close> and no
  \<^verbatim>\<open>errmsg\<close> fails with the text \<^verbatim>\<open><nil>\<close> after the prefix, not the empty text:
  \<^verbatim>\<open>%v\<close> prints the nil interface so. And a reply whose \<^verbatim>\<open>success\<close> element is a
  list has no Value element named \<^verbatim>\<open>success\<close>, yet \<^verbatim>\<open>Err\<close> fails.
\<close>

theorem Err_absent_errmsg_counterexample:
  "Get (Message [''success''] (fmupd ''success'' (GString ''no'') fmempty)) ''errmsg'' = None
   \<and> Err (Message [''success''] (fmupd ''success'' (GString ''no'') fmempty))
       = Some (CommandFailed None)
   \<and> error_text (CommandFailed None) = Some ''vici: command failed: <nil>''
   \<and> Get (Message [''success''] (fmupd ''success'' (GStrings (Slice [''yes''])) fmempty)) ''success''
       = Some (GStrings (Slice [''yes'']))
   \<and> Err (Message [''success''] (fmupd ''success'' (GStrings (Slice [''yes''])) fmempty))
       = Some (CommandFailed None)"
  by (simp add: Err_def Get_def)

text \<open>
  Claim C6, amended. \<^verbatim>\<open>Err\<close> succeeds exactly when the message has no element named
  \<^verbatim>\<open>success\<close>, of any type, or that element is the string \<^verbatim>\<open>"yes"\<close>. Otherwise it
  fails with \<^verbatim>\<open>errCommandFailed\<close> followed by what \<^verbatim>\<open>%v\<close> prints for the
  \<^verbatim>\<open>errmsg\<close> element: its contents when it is a string, and \<^verbatim>\<open><nil>\<close> when the
  message has none.
\<close>

theorem Err_success_field:
  "(Err m = None \<longleftrightarrow> Get m ''success'' = None \<or> Get m ''success'' = Some (GString ''yes''))
   \<and> (Err m \<noteq> None \<longrightarrow>
        Err m = Some (CommandFailed (Get m ''errmsg''))
        \<and> (\<forall>e. Get m ''errmsg'' = Some (GString e) \<longrightarrow>
               error_text (CommandFailed (Get m ''errmsg'')) = Some (''vici: command failed: '' @ e))
        \<and> (Get m ''errmsg'' = None \<longrightarrow>
               error_text (CommandFailed (Get m ''errmsg'')) = Some ''vici: command failed: <nil>''))"
  by (auto simp: Err_def Get_def split: option.splits)

theorem Err_success_field_witness:
  "Err (Message [''success'', ''errmsg'']
         (fmupd ''success'' (GString ''no'') (fmupd ''errmsg'' (GString ''no such conn'') fmempty)))
     = Some (CommandFailed (Some (GString ''no such conn'')))
   \<and> error_text (CommandFailed (Some (GString ''no such conn'')))
       = Some ''vici: command failed: no such conn''
   \<and> Err (Message [''success''] (fmupd ''success'' (GString ''yes'') fmempty)) = None
   \<and> Err (Message [] fmempty) = None"
  using Err_success_field [of "Message [''success'', ''errmsg'']
         (fmupd ''success'' (GString ''no'') (fmupd ''errmsg'' (GString ''no such conn'') fmempty))"]
    Err_success_field [of "Message [''success''] (fmupd ''success'' (GString ''yes'') fmempty)"]
    Err_success_field [of "Message [] fmempty"]
  by (simp add: Get_def)

subsection \<open>The encoder\<close>

text \<open>
  The loop of \<^verbatim>\<open>encode\<close> and \<^verbatim>\<open>encodeSection\<close> appends to its buffer, so what it
  returns is the buffer it was given followed by what it returns on the empty buffer.
\<close>

lemma encodeElements_append:
  "encodeElements d ks buf =
     (case encodeElements d ks [] of Inl e \<Rightarrow> Inl e | Inr b \<Rightarrow> Inr (buf @ b))"
proof (induction ks arbitrary: buf)
  case Nil
  then show ?case by simp
next
  case (Cons k ks)
  show ?case
  proof (cases "encodeElement k (fmlookup d k)")
    case (Inl e)
    then show ?thesis by simp
  next
    case (Inr dat)
    have "encodeElements d (k # ks) buf = encodeElements d ks (buf @ dat)"
      using Inr by simp
    also have "\<dots> = (case encodeElements d ks [] of Inl e \<Rightarrow> Inl e | Inr b \<Rightarrow> Inr (buf @ dat @ b))"
      using Cons.IH [of "buf @ dat"] by (simp split: sum.splits)
    also have "\<dots> = (case encodeElements d (k # ks) [] of Inl e \<Rightarrow> Inl e | Inr b \<Rightarrow> Inr (buf @ b))"
      using Inr Cons.IH [of dat] by (simp split: sum.splits)
    finally show ?thesis .
  qed
qed

lemma length_encodeItems:
  "length (encodeItems list buf) = length buf + (\<Sum>i\<leftarrow>list. 3 + length i)"
  by (induction list arbitrary: buf) (simp_all add: PutUint16_def bytes_def Let_def)

lemma never_Encoding:
  "encodeSection key s \<noteq> Inl Encoding"
  "encodeElements d ks buf \<noteq> Inl Encoding"
  "encodeElement k vo \<noteq> Inl Encoding"
proof (induction key s and d ks buf and k vo rule: encodeSection_encodeElements_encodeElement.induct)
  case (1 key sec)
  from 1 [OF refl refl refl] show ?case by (auto simp: encodeSection.simps split: sum.splits)
next
  case (3 d k ks buf)
  then show ?case by (auto split: sum.splits)
qed (simp_all add: encodeKeyValue_def encodeList_def Let_def)


lemma encodeSection_eq:
  "encodeSection key s =
     (case encodeElements (data s) (keys s) [] of
        Inl e \<Rightarrow> Inl e
      | Inr body \<Rightarrow> Inr (msgSectionStart # of_nat (length key) # bytes key @ body @ [msgSectionEnd]))"
  using encodeElements_append [of "data s" "keys s" "msgSectionStart # of_nat (length key) # bytes key"]
  by (simp add: encodeSection.simps Let_def split: sum.splits)

lemma unat_key_length: "unat (of_nat n :: byte) = n mod 256"
  by (simp add: unat_of_nat)

text \<open>
  Claim C3, as stated, fails: a message with an empty key, and one with a key of 256
  bytes, are encoded without any error. The key length is written as
  \<^verbatim>\<open>uint8(len(key))\<close>, which is 0 for both.
\<close>

theorem encode_bad_key_counterexample:
  "encode (Message [''''] (fmupd '''' (GString ''v'') fmempty)) = Inr [3, 0, 0, 1, 118]
   \<and> length (replicate 256 CHR ''k'') = 256
   \<and> encode (Message [replicate 256 CHR ''k''] (fmupd (replicate 256 CHR ''k'') (GString '''') fmempty))
       = Inr ([3, 0] @ replicate 256 107 @ [0, 0])"
  by (simp add: encode_def encodeKeyValue_def bytes_def PutUint16_def msg_bytes)


text \<open>
  Claim C3, amended. The encoder checks no key length and never fails with
  \<^verbatim>\<open>errEncoding\<close>, whatever the keys of the message are. Each element starts with its
  type byte, then the one byte \<^verbatim>\<open>uint8(len(key))\<close>, then the whole key; that byte is
  \<open>length key mod 256\<close>, the length itself for a key of at most 255 bytes.
\<close>

theorem encode_key_length_byte:
  "encode m \<noteq> Inl Encoding
   \<and> (\<exists>rest. encodeKeyValue key v = Inr (msgKeyValue # of_nat (length key) # bytes key @ rest))
   \<and> (\<exists>rest. encodeList key l = Inr (msgListStart # of_nat (length key) # bytes key @ rest))
   \<and> (case encodeSection key s of
         Inr bs \<Rightarrow> \<exists>rest. bs = msgSectionStart # of_nat (length key) # bytes key @ rest
       | Inl e \<Rightarrow> e \<noteq> Encoding)
   \<and> unat (of_nat (length key) :: byte) = length key mod 256"
proof -
  have 1: "encode m \<noteq> Inl Encoding"
    by (simp add: encode_def never_Encoding)
  have 2: "\<exists>rest. encodeKeyValue key v = Inr (msgKeyValue # of_nat (length key) # bytes key @ rest)"
    by (simp add: encodeKeyValue_def Let_def)
  have items: "\<exists>rest. encodeItems xs (pre @ acc) = pre @ rest" for xs pre acc
    by (induction xs arbitrary: acc) (simp_all add: Let_def)
  have 3: "\<exists>rest. encodeList key l = Inr (msgListStart # of_nat (length key) # bytes key @ rest)"
    using items [of "items l" "msgListStart # of_nat (length key) # bytes key" "[]"]
    by (auto simp: encodeList_def Let_def)
  have 4: "case encodeSection key s of
         Inr bs \<Rightarrow> \<exists>rest. bs = msgSectionStart # of_nat (length key) # bytes key @ rest
       | Inl e \<Rightarrow> e \<noteq> Encoding"
    using never_Encoding(2) [of "data s" "keys s" "[]"]
    by (auto simp: encodeSection_eq split: sum.splits)
  show ?thesis using 1 2 3 4 unat_key_length by blast
qed

text \<open>
  Claim C7, as stated, fails for lists and sections: the list \<^verbatim>\<open>ks = [a, b]\<close> is
  encoded in 13 bytes where the formula of the claim gives 14, and the section
  \<^verbatim>\<open>outer = {inner = x}\<close> in 18 bytes where the formula gives 19.
\<close>

theorem length_formula_counterexample:
  "(case encodeList ''ks'' (Slice [''a'', ''b'']) of
      Inr bs \<Rightarrow> length bs = 13
        \<and> 3 + length ''ks'' + (\<Sum>i\<leftarrow>[''a'', ''b'']. 3 + length i) + 1 = (14::nat)
    | Inl e \<Rightarrow> False)
   \<and> (case encodeSection ''outer'' (Message [''inner''] (fmupd ''inner'' (GString ''x'') fmempty)) of
      Inr bs \<Rightarrow> length bs = 18
        \<and> encode (Message [''inner''] (fmupd ''inner'' (GString ''x'') fmempty))
            = Inr [3, 5, 105, 110, 110, 101, 114, 0, 1, 120]
        \<and> 3 + length ''outer'' + length [3, 5, 105, 110, 110, 101, 114, 0, 1, 120 :: byte] + 1 = (19::nat)
    | Inl e \<Rightarrow> False)"
  by (simp add: encodeList_def encodeSection_eq encode_def encodeKeyValue_def bytes_def
      PutUint16_def Let_def msg_bytes)

text \<open>
  Claim C7, amended. A key-value element is encoded in \<open>4 + length k + length v\<close>
  bytes; a list in \<open>3 + length k\<close> bytes plus \<open>3 + length i\<close> for each item \<open>i\<close>
  (type byte, key length, key, the items, end marker); a section in
  \<open>3 + length k\<close> bytes plus the length of the encoding of its body, whenever the body
  can be encoded.
\<close>

theorem encoded_lengths:
  "(\<exists>bs. encodeKeyValue k v = Inr bs \<and> length bs = 4 + length k + length v)
   \<and> (\<exists>bs. encodeList k l = Inr bs
          \<and> length bs = 3 + length k + (\<Sum>i\<leftarrow>items l. 3 + length i))
   \<and> (\<forall>body. encode s = Inr body \<longrightarrow>
          (\<exists>bs. encodeSection k s = Inr bs \<and> length bs = 3 + length k + length body))"
  by (auto simp: encodeKeyValue_def encodeList_def encodeSection_eq encode_def Let_def
      PutUint16_def bytes_def length_encodeItems)

theorem encoded_lengths_witness:
  "encode (Message [''inner''] (fmupd ''inner'' (GString ''x'') fmempty))
     = Inr [3, 5, 105, 110, 110, 101, 114, 0, 1, 120]
   \<and> (\<exists>bs. encodeSection ''outer'' (Message [''inner''] (fmupd ''inner'' (GString ''x'') fmempty)) = Inr bs
          \<and> length bs = 18)"
proof -
  have e: "encode (Message [''inner''] (fmupd ''inner'' (GString ''x'') fmempty))
     = Inr [3, 5, 105, 110, 110, 101, 114, 0, 1, 120]"
    by (simp add: encode_def encodeKeyValue_def bytes_def PutUint16_def msg_bytes)
  from encoded_lengths [where s = "Message [''inner''] (fmupd ''inner'' (GString ''x'') fmempty)"
      and k = "''outer''"] e
  show ?thesis by simp
qed

text \<open>The encodings of scenarios S1 and S3 of the specification.\<close>

lemma scenario_S1:
  "Set ''key'' (GString ''value'') NewMessage
     = (None, Message [''key''] (fmupd ''key'' (GString ''value'') fmempty))"
  "encode (Message [''key''] (fmupd ''key'' (GString ''value'') fmempty))
     = Inr [0x03, 0x03, 0x6B, 0x65, 0x79, 0x00, 0x05, 0x76, 0x61, 0x6C, 0x75, 0x65]"
  by (simp_all add: Set_def addItem_def NewMessage_def encode_def encodeKeyValue_def bytes_def
      PutUint16_def msg_bytes)

lemma scenario_S3:
  "encode (Message [''outer'']
      (fmupd ''outer'' (GMessage (Message [''inner''] (fmupd ''inner'' (GString ''x'') fmempty)))
         fmempty))
     = Inr [0x01, 0x05, 0x6F, 0x75, 0x74, 0x65, 0x72, 0x03, 0x05, 0x69, 0x6E, 0x6E, 0x65, 0x72,
            0x00, 0x01, 0x78, 0x02]"
  by (simp add: encode_def encodeSection_eq encodeKeyValue_def bytes_def PutUint16_def msg_bytes)

subsection \<open>The decoder\<close>

text \<open>
  Claim C2 holds in the body of a section and of a list, where the source returns
  \<^verbatim>\<open>errExpectedBeginning\<close>, and fails at the top level: the \<^verbatim>\<open>switch\<close> of
  \<^verbatim>\<open>decode\<close> has no \<^verbatim>\<open>default\<close>, so a byte that starts no element is passed over
  and decoding goes on with the next byte. The bytes \<open>9, 9\<close> decode without error to
  the empty message, and a 9 before a key-value element is skipped.
\<close>

theorem decode_unknown_byte_skipped:
  "decode [9, 9] NewMessage = Inr NewMessage
   \<and> decode [9] NewMessage = Inr NewMessage
   \<and> decode [9, 3, 1, 107, 0, 1, 118] NewMessage
       = Inr (Message [''k''] (fmupd ''k'' (GString ''v'') fmempty))"
  by (simp add: decode_def decodeElements.simps decodeKeyValue_def NewMessage_def addItem_def
      string_of_def Uint16_def char_of_def bit_0 msg_bytes)


text \<open>
  In the body of a section and of a list a byte that starts nothing is refused; at the
  top level it is skipped, whatever follows it.
\<close>

lemma unknown_byte_in_section:
  assumes "b \<noteq> msgSectionEnd" "b \<noteq> msgKeyValue" "b \<noteq> msgListStart" "b \<noteq> msgSectionStart"
  shows "sectionElements b buf sec count = Inl ExpectedBeginning"
  using assms by (subst sectionElements.simps) simp

lemma unknown_byte_in_list:
  assumes "b \<noteq> msgListEnd" "b \<noteq> msgListItem"
  shows "listItems b buf list count = Inl ExpectedBeginning"
  using assms by (subst listItems.simps) simp

lemma unknown_byte_at_top_level:
  assumes "b \<noteq> msgKeyValue" "b \<noteq> msgListStart" "b \<noteq> msgSectionStart" "buf \<noteq> []"
  shows "decode (b # buf) m = decode buf m"
  using assms
  by (cases buf) (simp_all add: decode_def decodeElements.simps [of b])

text \<open>The list of scenario S2 of the specification.\<close>

lemma scenario_S2:
  "decode [0x04, 0x02, 0x6B, 0x73, 0x05, 0x00, 0x01, 0x61, 0x05, 0x00, 0x01, 0x62, 0x06] NewMessage
     = Inr (Message [''ks''] (fmupd ''ks'' (GStrings (Slice [''a'', ''b''])) fmempty))"
  by (simp add: decode_def decodeElements.simps decodeList_def listItems.simps NewMessage_def
      addItem_def string_of_def Uint16_def char_of_def bit_0 msg_bytes Let_def)

subsection \<open>Decoding what the encoder wrote\<close>

lemma length_string_of [simp]: "length (string_of bs) = length bs"
  by (simp add: string_of_def)

lemma length_bytes [simp]: "length (bytes s) = length s"
  by (simp add: bytes_def)

lemma string_of_bytes [simp]: "string_of (bytes s) = s"
  by (induction s) (simp_all add: string_of_def bytes_def unat_of_nat)

lemma Uint16_PutUint16 [simp]: "Uint16 (PutUint16 v @ rest) = v"
  unfolding Uint16_def PutUint16_def
  by (rule bit_word_eqI) (auto simp: bit_simps)

lemma unat_u8_length: "n \<le> 255 \<Longrightarrow> unat (of_nat n :: byte) = n"
  by (simp add: unat_of_nat)

lemma unat_u16_length: "n \<le> 65535 \<Longrightarrow> unat (of_nat n :: 16 word) = n"
  by (simp add: unat_of_nat)

lemma length_PutUint16 [simp]: "length (PutUint16 v) = 2"
  by (simp add: PutUint16_def)

lemma take2_PutUint16 [simp]: "take 2 (PutUint16 v @ rest) = PutUint16 v"
  by (simp add: PutUint16_def)

lemma drop2_PutUint16 [simp]: "drop 2 (PutUint16 v @ rest) = rest"
  by (simp add: PutUint16_def)

lemma Uint16_PutUint16' [simp]: "Uint16 (PutUint16 v) = v"
  using Uint16_PutUint16 [of v "[]"] by simp

lemma addItem_supported: "supported v \<Longrightarrow> addItem k v m = (None, with_item k v m)"
  by (cases v) (auto simp: addItem_def with_item_def Let_def)

lemma decodeKeyValue_encoded:
  assumes "length k \<le> 255" "length v \<le> 65535"
  shows "decodeKeyValue (of_nat (length k) # bytes k @ PutUint16 (of_nat (length v)) @ bytes v @ rest) m
         = Inr (length k + length v + 3, with_item k (GString v) m)"
  using assms
  by (simp add: decodeKeyValue_def Let_def unat_u8_length unat_u16_length addItem_supported)

lemma encodeItems_append: "encodeItems xs buf = buf @ encodeItems xs []"
proof (induction xs arbitrary: buf)
  case Nil
  then show ?case by simp
next
  case (Cons x xs)
  show ?case
    using Cons.IH [of "buf @ [msgListItem] @ PutUint16 (of_nat (length x)) @ bytes x"]
      Cons.IH [of "[msgListItem] @ PutUint16 (of_nat (length x)) @ bytes x"]
    by (simp add: Let_def)
qed

lemma encodeItems_Cons:
  "encodeItems (x # xs) [] = msgListItem # PutUint16 (of_nat (length x)) @ bytes x @ encodeItems xs []"
  using encodeItems_append [of xs "[msgListItem] @ PutUint16 (of_nat (length x)) @ bytes x"]
  by (simp add: Let_def)

lemma msg_bytes_distinct [simp]:
  "msgKeyValue \<noteq> msgSectionEnd" "msgListStart \<noteq> msgSectionEnd" "msgSectionStart \<noteq> msgSectionEnd"
  "msgListStart \<noteq> msgKeyValue" "msgSectionStart \<noteq> msgKeyValue" "msgSectionStart \<noteq> msgListStart"
  "msgListItem \<noteq> msgListEnd"
  by (simp_all add: msg_bytes)

lemma listItems_encoded:
  assumes "\<forall>i\<in>set xs. length i \<le> 65535"
    and "encodeItems xs [] @ msgListEnd # rest = b # buf"
  shows "listItems b buf list count
         = Inr (if xs = [] then list else Slice (items list @ xs),
                count + (\<Sum>i\<leftarrow>xs. 3 + length i))"
  using assms
proof (induction xs arbitrary: b buf list count)
  case Nil
  then show ?case by (simp add: listItems.simps)
next
  case (Cons x xs)
  from Cons.prems(2) have b: "b = msgListItem"
    and buf: "buf = PutUint16 (of_nat (length x)) @ bytes x @ encodeItems xs [] @ msgListEnd # rest"
    by (simp_all add: encodeItems_Cons del: encodeItems.simps)
  obtain b' buf' where next_byte: "encodeItems xs [] @ msgListEnd # rest = b' # buf'"
    by (cases "encodeItems xs [] @ msgListEnd # rest") auto
  have len: "length x \<le> 65535" and rest_ok: "\<forall>i\<in>set xs. length i \<le> 65535"
    using Cons.prems(1) by simp_all
  have step: "listItems b buf list count
        = listItems b' buf' (append_item list x) (count + length x + 3)"
    unfolding b buf
    by (subst listItems.simps) (simp add: Let_def unat_u16_length len next_byte)
  show ?case
    unfolding step Cons.IH [OF rest_ok next_byte]
    by (simp add: add.assoc)
qed

lemma decodeList_encoded:
  assumes "length k \<le> 255" "\<forall>i\<in>set (items l). length i \<le> 65535"
  shows "decodeList (of_nat (length k) # bytes k @ encodeItems (items l) [] @ msgListEnd # rest) m
         = Inr (length k + 2 + (\<Sum>i\<leftarrow>items l. 3 + length i),
                with_item k (canon_value (GStrings l)) m)"
proof -
  obtain b buf where nb: "encodeItems (items l) [] @ msgListEnd # rest = b # buf"
    by (cases "encodeItems (items l) [] @ msgListEnd # rest") auto
  have li: "listItems b buf NilSlice c
      = Inr (if items l = [] then NilSlice else Slice (items l),
             c + (\<Sum>i\<leftarrow>items l. 3 + length i))" for c
    using listItems_encoded [OF assms(2) nb, of NilSlice c] by simp
  show ?thesis
    using assms(1)
    by (simp add: decodeList_def Let_def unat_u8_length nb li addItem_supported)
qed

lemma sectionElements_unfold:
  "sectionElements b buf sec count =
     (if b = msgSectionEnd then Inr (sec, count)
      else case decodeElement b buf sec of
             Inl err \<Rightarrow> Inl err
           | Inr (n, sec') \<Rightarrow>
               (case drop n buf of
                  [] \<Rightarrow> Inl Decoding
                | b' # buf' \<Rightarrow> sectionElements b' buf' sec' (count + n + 1)))"
  by (subst sectionElements.simps) (simp add: decodeElement_def)

lemma decodeElements_unfold:
  "decodeElements b buf m =
     (if buf = [] then Inr m
      else case (if element_start b then decodeElement b buf m else Inr (0, m)) of
             Inl err \<Rightarrow> Inl err
           | Inr (n, m') \<Rightarrow> decode (drop n buf) m')"
proof -
  have cont: "(case xs of [] \<Rightarrow> decodeElements 0 [] m' | b' # buf' \<Rightarrow> decodeElements b' buf' m')
      = decode xs m'" for xs m'
    by (simp add: decode_def)
  show ?thesis
    by (subst decodeElements.simps)
      (auto simp: decodeElement_def element_start_def cont split: sum.splits)
qed

lemma decode_Nil [simp]: "decode [] m = Inr m"
  by (simp add: decode_def decodeElements.simps)

lemma decode_Cons: "decode (b # buf) m = decodeElements b buf m"
  by (simp add: decode_def)

lemma rebuilt_simps [simp]:
  "rebuilt d [] m = m"
  "rebuilt d (k # ks) m = rebuilt d ks (with_item k (canon_value (the (fmlookup d k))) m)"
  by (simp_all add: rebuilt_def)

lemma element_start_not_end: "element_start t \<Longrightarrow> t \<noteq> msgSectionEnd"
  by (auto simp: element_start_def msg_bytes)

lemma loops_encoded:
  assumes "\<forall>k\<in>set ks. \<exists>v. fmlookup d k = Some v \<and> elem_ok k v"
  shows "\<exists>body. encodeElements d ks [] = Inr body
           \<and> (\<forall>rest sec count b buf. body @ msgSectionEnd # rest = b # buf \<longrightarrow>
                 sectionElements b buf sec count = Inr (rebuilt d ks sec, count + length body))
           \<and> (\<forall>tail m. decode (body @ tail) m = decode tail (rebuilt d ks m))"
  using assms
proof (induction ks)
  case Nil
  show ?case
    by (auto simp: sectionElements_unfold)
next
  case (Cons k ks)
  from Cons.prems obtain v where v: "fmlookup d k = Some v" and ok: "elem_ok k v"
    by auto
  from ok obtain t eb where enc: "encodeElement k (Some v) = Inr (t # eb)"
    and nonempty: "eb \<noteq> []" and start: "element_start t"
    and dec: "\<And>rest m. decodeElement t (eb @ rest) m = Inr (length eb, with_item k (canon_value v) m)"
    unfolding elem_ok_def by blast
  from Cons.IH Cons.prems obtain body where
    body: "encodeElements d ks [] = Inr body"
    and sec: "\<And>rest sec count b buf. body @ msgSectionEnd # rest = b # buf \<Longrightarrow>
                 sectionElements b buf sec count = Inr (rebuilt d ks sec, count + length body)"
    and top: "\<And>tail m. decode (body @ tail) m = decode tail (rebuilt d ks m)"
    by auto
  have e: "encodeElements d (k # ks) [] = Inr (t # eb @ body)"
    using encodeElements_append [of d ks "t # eb"] by (simp add: v enc body)
  have s: "sectionElements b buf sec count
             = Inr (rebuilt d (k # ks) sec, count + length (t # eb @ body))"
    if h: "(t # eb @ body) @ msgSectionEnd # rest = b # buf" for rest sec count b buf
  proof -
    from h have b: "b = t" and buf: "buf = eb @ (body @ msgSectionEnd # rest)" by simp_all
    obtain b' buf' where nb: "body @ msgSectionEnd # rest = b' # buf'"
      by (cases "body @ msgSectionEnd # rest") auto
    have "sectionElements b buf sec count
        = sectionElements b' buf' (with_item k (canon_value v) sec) (count + length eb + 1)"
      unfolding b buf
      by (subst sectionElements_unfold) (simp add: element_start_not_end [OF start] dec nb)
    also have "\<dots> = Inr (rebuilt d ks (with_item k (canon_value v) sec), count + length eb + 1 + length body)"
      by (rule sec [OF nb])
    finally show ?thesis by (simp add: v)
  qed
  have tp: "decode ((t # eb @ body) @ tail) m = decode tail (rebuilt d (k # ks) m)" for tail m
  proof -
    have "decode ((t # eb @ body) @ tail) m = decodeElements t (eb @ (body @ tail)) m"
      by (simp add: decode_Cons)
    also have "\<dots> = decode (body @ tail) (with_item k (canon_value v) m)"
      by (subst decodeElements_unfold) (simp add: nonempty start dec)
    also have "\<dots> = decode tail (rebuilt d ks (with_item k (canon_value v) m))"
      by (rule top)
    finally show ?thesis by (simp add: v)
  qed
  show ?case using e s tp by blast
qed

lemma fmlookup_add_case:
  "fmlookup (m ++\<^sub>f n) x = (case fmlookup n x of Some v \<Rightarrow> Some v | None \<Rightarrow> fmlookup m x)"
  by (cases "fmlookup n x") (simp_all add: fmlookup_dom_iff)

lemma rebuilt_fresh:
  assumes "distinct ks" "set ks \<inter> fmdom' d0 = {}" "set ks \<subseteq> fmdom' d"
  shows "rebuilt d ks (Message ks0 d0)
         = Message (ks0 @ ks) (d0 ++\<^sub>f fmmap canon_value (fmrestrict_set (set ks) d))"
  using assms
proof (induction ks arbitrary: ks0 d0)
  case Nil
  then show ?case by simp
next
  case (Cons k ks)
  from Cons.prems obtain v where v: "fmlookup d k = Some v"
    by (auto simp: fmlookup_dom'_iff)
  from Cons.prems have fresh: "fmlookup d0 k = None"
    by (auto simp: fmlookup_dom'_iff)
  have st: "with_item k (canon_value v) (Message ks0 d0)
      = Message (ks0 @ [k]) (fmupd k (canon_value v) d0)"
    by (simp add: with_item_def fresh)
  have ih: "rebuilt d ks (Message (ks0 @ [k]) (fmupd k (canon_value v) d0))
      = Message ((ks0 @ [k]) @ ks)
          (fmupd k (canon_value v) d0 ++\<^sub>f fmmap canon_value (fmrestrict_set (set ks) d))"
    using Cons.prems by (intro Cons.IH) auto
  have maps: "fmupd k (canon_value v) d0 ++\<^sub>f fmmap canon_value (fmrestrict_set (set ks) d)
      = d0 ++\<^sub>f fmmap canon_value (fmrestrict_set (set (k # ks)) d)"
  proof (rule fmap_ext)
    fix x
    show "fmlookup (fmupd k (canon_value v) d0 ++\<^sub>f fmmap canon_value (fmrestrict_set (set ks) d)) x
        = fmlookup (d0 ++\<^sub>f fmmap canon_value (fmrestrict_set (set (k # ks)) d)) x"
      using v Cons.prems(1)
      by (cases "x = k"; cases "x \<in> set ks")
        (simp_all add: fmlookup_add_case del: fmlookup_add split: option.splits)
  qed
  show ?case
    by (simp add: v st ih maps)
qed

lemma rebuilt_canon:
  assumes "distinct ks" "fmdom' d = set ks"
  shows "rebuilt d ks NewMessage = canon (Message ks d)"
proof -
  have r: "fmrestrict_set (set ks) d = d"
  proof (rule fmap_ext)
    fix x
    show "fmlookup (fmrestrict_set (set ks) d) x = fmlookup d x"
    proof (cases "fmlookup d x")
      case None
      then show ?thesis by simp
    next
      case (Some v)
      then have "x \<in> set ks" using assms(2) fmdom'I by fastforce
      then show ?thesis by simp
    qed
  qed
  have a: "set ks \<inter> fmdom' (fmempty :: (string, gvalue) fmap) = {}" by simp
  have b: "set ks \<subseteq> fmdom' d" using assms(2) by simp
  have "rebuilt d ks (Message [] fmempty)
      = Message ([] @ ks) (fmempty ++\<^sub>f fmmap canon_value (fmrestrict_set (set ks) d))"
    by (rule rebuilt_fresh [OF assms(1) a b])
  then show ?thesis
    unfolding NewMessage_def r by simp
qed

lemma wf_elements_ok:
  "(wf_element (Some v) \<longrightarrow> (\<forall>k. length k \<le> 255 \<longrightarrow> elem_ok k v))"
  "(wf_message m \<longrightarrow> (\<forall>k\<in>set (keys m). \<exists>v. fmlookup (data m) k = Some v \<and> elem_ok k v))"
proof (induction v and m)
  case (GString s)
  show ?case
    by (auto simp: elem_ok_def encodeKeyValue_def element_start_def decodeElement_def
        decodeKeyValue_encoded bytes_def[symmetric])
next
  case (GStrings l)
  have e: "encodeList k l = Inr (msgListStart # of_nat (length k) # bytes k @ encodeItems (items l) [] @ [msgListEnd])" for k
    using encodeItems_append [of "items l" "msgListStart # of_nat (length k) # bytes k"]
    by (simp add: encodeList_def)
  show ?case
    using decodeList_encoded [of _ l]
    by (auto simp: elem_ok_def e element_start_def decodeElement_def msg_bytes length_encodeItems
        simp del: canon_value.simps)
next
  case (GMessage m)
  show ?case
  proof (intro impI allI)
    fix k :: string
    assume wf: "wf_element (Some (GMessage m))" and k: "length k \<le> 255"
    then have wfm: "wf_message m" by simp
    then have inv: "distinct (keys m)" "fmdom' (data m) = set (keys m)"
      by (cases m; simp)+
    from GMessage wfm have "\<forall>k\<in>set (keys m). \<exists>v. fmlookup (data m) k = Some v \<and> elem_ok k v"
      by simp
    from loops_encoded [OF this] obtain body where
      body: "encodeElements (data m) (keys m) [] = Inr body"
      and sec: "\<And>rest sec count b buf. body @ msgSectionEnd # rest = b # buf \<Longrightarrow>
                 sectionElements b buf sec count
                 = Inr (rebuilt (data m) (keys m) sec, count + length body)"
      by blast
    have e: "encodeElement k (Some (GMessage m))
        = Inr (msgSectionStart # (of_nat (length k) # bytes k @ body @ [msgSectionEnd]))"
      by (simp add: encodeSection_eq body)
    have d: "decodeElement msgSectionStart ((of_nat (length k) # bytes k @ body @ [msgSectionEnd]) @ rest) m0
        = Inr (length (of_nat (length k) # bytes k @ body @ [msgSectionEnd]),
               with_item k (canon_value (GMessage m)) m0)" for rest m0
    proof -
      obtain b buf where nb: "body @ msgSectionEnd # rest = b # buf"
        by (cases "body @ msgSectionEnd # rest") auto
      have c: "canon m = rebuilt (data m) (keys m) NewMessage"
        using rebuilt_canon [OF inv] by (cases m) simp
      show ?thesis
        using k
        by (simp add: decodeElement_def msg_bytes_distinct decodeSection.simps Let_def
            unat_u8_length nb sec [OF nb] addItem_supported c)
    qed
    show "elem_ok k (GMessage m)"
      unfolding elem_ok_def
      using e d by (intro exI conjI allI) (auto simp: element_start_def)
  qed
next
  case (GOther x)
  show ?case by simp
next
  case (Message ks d)
  show ?case
  proof (intro impI ballI)
    fix k assume wf: "wf_message (Message ks d)" and k: "k \<in> set (keys (Message ks d))"
    then have len: "length k \<le> 255" and w: "wf_element (fmlookup d k)" by auto
    from w obtain v where v: "fmlookup d k = Some v" by (cases "fmlookup d k") auto
    then have "v \<in> fmran' d" by (rule fmran'I)
    with Message w v len have "elem_ok k v" by simp
    with v show "\<exists>v. fmlookup (data (Message ks d)) k = Some v \<and> elem_ok k v" by simp
  qed
qed

lemma canon_idem:
  "canon_value (canon_value v) = canon_value v"
  "canon (canon m) = canon m"
proof (induction v and m)
  case (Message ks d)
  have "fmmap canon_value (fmmap canon_value d) = fmmap canon_value d"
  proof (rule fmap_ext)
    fix x
    show "fmlookup (fmmap canon_value (fmmap canon_value d)) x = fmlookup (fmmap canon_value d) x"
    proof (cases "fmlookup d x")
      case None
      then show ?thesis by simp
    next
      case (Some v)
      then have "v \<in> fmran' d" by (rule fmran'I)
      with Message Some show ?thesis by simp
    qed
  qed
  then show ?case by simp
qed simp_all

lemma keys_canon [simp]: "keys (canon m) = keys m"
  by (cases m) simp

lemma decode_encode_canon:
  assumes "wf_message m"
  shows "\<exists>bs. encode m = Inr bs \<and> decode bs NewMessage = Inr (canon m)"
proof -
  from assms have inv: "distinct (keys m)" "fmdom' (data m) = set (keys m)"
    by (cases m; simp)+
  from wf_elements_ok(2) assms
  have "\<forall>k\<in>set (keys m). \<exists>v. fmlookup (data m) k = Some v \<and> elem_ok k v" by blast
  from loops_encoded [OF this] obtain body where
    body: "encodeElements (data m) (keys m) [] = Inr body"
    and top: "\<And>tail m0. decode (body @ tail) m0 = decode tail (rebuilt (data m) (keys m) m0)"
    by blast
  have "decode body NewMessage = Inr (canon m)"
    using top [of "[]" NewMessage] rebuilt_canon [OF inv] by (cases m) simp
  then show ?thesis
    using body by (simp add: encode_def)
qed

text \<open>
  Claim C1. For every well-formed message, \<^verbatim>\<open>encode\<close> succeeds, and decoding its
  bytes into a new message succeeds with a message that is structurally equal to the
  first, with the same keys in the same order at every level. A list is compared by
  its items: the decoder returns the nil slice for a list without items.
\<close>

theorem decode_encode_roundtrip:
  assumes "wf_message m"
  shows "\<exists>bs m'. encode m = Inr bs \<and> decode bs NewMessage = Inr m'
           \<and> same_message m' m \<and> Keys m' = Keys m"
  using decode_encode_canon [OF assms]
  by (auto simp: same_message_def canon_idem Keys_def)

theorem decode_encode_roundtrip_witness:
  "wf_message (Message [''outer'', ''ks'', ''e'']
      (fmupd ''outer'' (GMessage (Message [''inner''] (fmupd ''inner'' (GString ''x'') fmempty)))
        (fmupd ''ks'' (GStrings (Slice [''a'', ''b'']))
          (fmupd ''e'' (GStrings (Slice [])) fmempty))))
   \<and> (\<exists>bs m'. encode (Message [''outer'', ''ks'', ''e'']
      (fmupd ''outer'' (GMessage (Message [''inner''] (fmupd ''inner'' (GString ''x'') fmempty)))
        (fmupd ''ks'' (GStrings (Slice [''a'', ''b'']))
          (fmupd ''e'' (GStrings (Slice [])) fmempty)))) = Inr bs
        \<and> decode bs NewMessage = Inr m'
        \<and> Keys m' = [''outer'', ''ks'', ''e''])"
proof -
  let ?m = "Message [''outer'', ''ks'', ''e'']
      (fmupd ''outer'' (GMessage (Message [''inner''] (fmupd ''inner'' (GString ''x'') fmempty)))
        (fmupd ''ks'' (GStrings (Slice [''a'', ''b'']))
          (fmupd ''e'' (GStrings (Slice [])) fmempty)))"
  have wf: "wf_message ?m" by simp
  from decode_encode_roundtrip [OF wf] wf show ?thesis
    by (auto simp: Keys_def)
qed


subsection \<open>Input that ends too early\<close>

lemma listItems_prefix:
  assumes "\<forall>i\<in>set xs. length i \<le> 65535"
    and "encodeItems xs [] @ b' # buf' = b # buf"
  shows "listItems b buf list count
         = listItems b' buf' (if xs = [] then list else Slice (items list @ xs))
             (count + (\<Sum>i\<leftarrow>xs. 3 + length i))"
  using assms
proof (induction xs arbitrary: b buf list count)
  case Nil
  then show ?case by simp
next
  case (Cons x xs)
  from Cons.prems(2) have b: "b = msgListItem"
    and buf: "buf = PutUint16 (of_nat (length x)) @ bytes x @ encodeItems xs [] @ b' # buf'"
    by (simp_all add: encodeItems_Cons del: encodeItems.simps)
  obtain b2 buf2 where next_byte: "encodeItems xs [] @ b' # buf' = b2 # buf2"
    by (cases "encodeItems xs [] @ b' # buf'") auto
  have len: "length x \<le> 65535" and rest_ok: "\<forall>i\<in>set xs. length i \<le> 65535"
    using Cons.prems(1) by simp_all
  have step: "listItems b buf list count
        = listItems b2 buf2 (append_item list x) (count + length x + 3)"
    unfolding b buf
    by (subst listItems.simps) (simp add: Let_def unat_u16_length len next_byte)
  show ?case
    unfolding step Cons.IH [OF rest_ok next_byte]
    by (simp add: ac_simps)
qed

lemma listItems_unterminated:
  assumes "\<forall>i\<in>set xs. length i \<le> 65535"
    and "encodeItems xs [] = b # buf"
  shows "listItems b buf list count = Inl Decoding"
proof -
  from assms(2) have "xs \<noteq> []" by auto
  then obtain ys y where xs: "xs = ys @ [y]" by (metis rev_exhaust)
  have e: "encodeItems xs [] = encodeItems ys [] @ msgListItem # PutUint16 (of_nat (length y)) @ bytes y"
    unfolding xs
  proof (induction ys)
    case Nil
    show ?case by (simp add: Let_def)
  next
    case (Cons a ys)
    show ?case
      using Cons.IH by (simp add: encodeItems_Cons del: encodeItems.simps)
  qed
  have ys: "\<forall>i\<in>set ys. length i \<le> 65535" and y: "length y \<le> 65535"
    using assms(1) xs by simp_all
  have last: "listItems msgListItem (PutUint16 (of_nat (length y)) @ bytes y) l c = Inl Decoding" for l c
    by (subst listItems.simps) (simp add: Let_def unat_u16_length y)
  show ?thesis
    using listItems_prefix [OF ys, of msgListItem "PutUint16 (of_nat (length y)) @ bytes y" b buf list count]
      assms(2) e last
    by simp
qed

lemma section_prefix_aux:
  assumes "\<forall>k\<in>set ks. \<exists>v. fmlookup d k = Some v \<and> elem_ok k v"
    and "encodeElements d ks [] = Inr body"
  shows "(\<forall>b' buf' b buf sec count. body @ b' # buf' = b # buf \<longrightarrow>
           sectionElements b buf sec count
           = sectionElements b' buf' (rebuilt d ks sec) (count + length body))
       \<and> (\<forall>b buf sec count. body = b # buf \<longrightarrow> sectionElements b buf sec count = Inl Decoding)"
  using assms
proof (induction ks arbitrary: body)
  case Nil
  then show ?case by simp
next
  case (Cons k ks)
  have oks: "\<forall>k\<in>set ks. \<exists>v. fmlookup d k = Some v \<and> elem_ok k v"
    and "\<exists>v. fmlookup d k = Some v \<and> elem_ok k v"
    using Cons.prems(1) by simp_all
  then obtain v where v: "fmlookup d k = Some v" and ok: "elem_ok k v"
    by auto
  from ok obtain t eb where enc: "encodeElement k (Some v) = Inr (t # eb)"
    and nonempty: "eb \<noteq> []" and start: "element_start t"
    and dec: "\<And>rest m. decodeElement t (eb @ rest) m = Inr (length eb, with_item k (canon_value v) m)"
    unfolding elem_ok_def by blast
  from loops_encoded [OF oks] obtain body0 where body0: "encodeElements d ks [] = Inr body0"
    by blast
  have body: "body = t # eb @ body0"
    using Cons.prems(2) encodeElements_append [of d ks "t # eb"] by (simp add: v enc body0)
  from Cons.IH [OF oks body0]
  have ih1: "\<And>b' buf' b buf sec count. body0 @ b' # buf' = b # buf \<Longrightarrow>
           sectionElements b buf sec count
           = sectionElements b' buf' (rebuilt d ks sec) (count + length body0)"
    and ih2: "\<And>b buf sec count. body0 = b # buf \<Longrightarrow> sectionElements b buf sec count = Inl Decoding"
    by blast+
  have p1: "sectionElements b buf sec count
           = sectionElements b' buf' (rebuilt d (k # ks) sec) (count + length body)"
    if h: "body @ b' # buf' = b # buf" for b' buf' b buf sec count
  proof -
    from h have b: "b = t" and buf: "buf = eb @ (body0 @ b' # buf')"
      by (simp_all add: body)
    obtain b2 buf2 where nb: "body0 @ b' # buf' = b2 # buf2"
      by (cases "body0 @ b' # buf'") auto
    have "sectionElements b buf sec count
        = sectionElements b2 buf2 (with_item k (canon_value v) sec) (count + length eb + 1)"
      unfolding b buf
      by (subst sectionElements_unfold) (simp add: element_start_not_end [OF start] dec nb)
    also have "\<dots> = sectionElements b' buf' (rebuilt d ks (with_item k (canon_value v) sec))
        (count + length eb + 1 + length body0)"
      by (rule ih1 [OF nb])
    finally show ?thesis by (simp add: v body ac_simps)
  qed
  have p2: "sectionElements b buf sec count = Inl Decoding"
    if h: "body = b # buf" for b buf sec count
  proof -
    from h have b: "b = t" and buf: "buf = eb @ body0"
      by (simp_all add: body)
    show ?thesis
    proof (cases body0)
      case Nil
      show ?thesis
        unfolding b buf Nil
        using dec [of "[]"]
        by (subst sectionElements_unfold) (simp add: element_start_not_end [OF start])
    next
      case (Cons b2 buf2)
      have "sectionElements b buf sec count
          = sectionElements b2 buf2 (with_item k (canon_value v) sec) (count + length eb + 1)"
        unfolding b buf
        by (subst sectionElements_unfold) (simp add: element_start_not_end [OF start] dec Cons)
      also have "\<dots> = Inl Decoding"
        by (rule ih2 [OF Cons])
      finally show ?thesis .
    qed
  qed
  show ?case using p1 p2 by blast
qed

lemma section_prefix:
  assumes "wf_message s" and "encode s = Inr body"
  shows "body @ b' # buf' = b # buf \<Longrightarrow>
           sectionElements b buf sec count
           = sectionElements b' buf' (rebuilt (data s) (keys s) sec) (count + length body)"
    and "body = b # buf \<Longrightarrow> sectionElements b buf sec count = Inl Decoding"
proof -
  from wf_elements_ok(2) assms(1)
  have "\<forall>k\<in>set (keys s). \<exists>v. fmlookup (data s) k = Some v \<and> elem_ok k v" by blast
  from section_prefix_aux [OF this] assms(2)
  show "body @ b' # buf' = b # buf \<Longrightarrow>
           sectionElements b buf sec count
           = sectionElements b' buf' (rebuilt (data s) (keys s) sec) (count + length body)"
    and "body = b # buf \<Longrightarrow> sectionElements b buf sec count = Inl Decoding"
    by (simp_all add: encode_def)
qed

lemma decode_prefix:
  assumes "wf_message s" and "encode s = Inr body"
  shows "decode (body @ tail) m = decode tail (rebuilt (data s) (keys s) m)"
proof -
  from wf_elements_ok(2) assms(1)
  have "\<forall>k\<in>set (keys s). \<exists>v. fmlookup (data s) k = Some v \<and> elem_ok k v" by blast
  from loops_encoded [OF this] assms(2) show ?thesis
    by (auto simp: encode_def)
qed

lemma cut_element_start: "cut_element t buf e \<Longrightarrow> element_start t"
  by (induction rule: cut_element.induct) (simp_all add: element_start_def)

lemma key_read:
  "length key = unat n \<Longrightarrow> take (unat n) (key @ rest) = key"
  "length key = unat n \<Longrightarrow> drop (unat n) (key @ rest) = rest"
  by simp_all

lemma cut_element_decodeElement:
  assumes "cut_element t buf e"
  shows "decodeElement t buf m = Inl e"
  using assms
proof (induction arbitrary: m rule: cut_element.induct)
  case (short_key t rest n)
  then show ?case
    by (auto simp: decodeElement_def element_start_def decodeKeyValue_def decodeList_def
        decodeSection.simps Let_def)
next
  case (short_value_length key n rest)
  then show ?case
    by (simp add: decodeElement_def decodeKeyValue_def Let_def)
next
  case (short_value key n rest h l)
  then show ?case
    by (simp add: decodeElement_def decodeKeyValue_def Let_def)
next
  case (short_item_length key n xs rest)
  obtain b buf where nb: "encodeItems xs [] @ msgListItem # rest = b # buf"
    by (cases "encodeItems xs [] @ msgListItem # rest") auto
  have "listItems msgListItem rest l c = Inl EndOfBuffer" for l c
    using short_item_length(3) by (subst listItems.simps) (simp add: Let_def)
  then have "listItems b buf NilSlice c = Inl EndOfBuffer" for c
    using listItems_prefix [OF short_item_length(2) nb] by simp
  then show ?case
    using short_item_length(1)
    by (simp add: decodeElement_def msg_bytes_distinct decodeList_def Let_def nb)
next
  case (short_item key n xs rest h l)
  obtain b buf where nb: "encodeItems xs [] @ msgListItem # h # l # rest = b # buf"
    by (cases "encodeItems xs [] @ msgListItem # h # l # rest") auto
  have "listItems msgListItem (h # l # rest) ls c = Inl BadValue" for ls c
    using short_item(3) by (subst listItems.simps) (simp add: Let_def)
  then have "listItems b buf NilSlice c = Inl BadValue" for c
    using listItems_prefix [OF short_item(2) nb] by simp
  then show ?case
    using short_item(1)
    by (simp add: decodeElement_def msg_bytes_distinct decodeList_def Let_def nb)
next
  case (open_list key n xs)
  show ?case
  proof (cases "encodeItems xs []")
    case Nil
    then show ?thesis
      using open_list(1)
      by (simp add: decodeElement_def msg_bytes_distinct decodeList_def Let_def)
  next
    case (Cons b buf)
    have "listItems b buf NilSlice c = Inl Decoding" for c
      by (rule listItems_unterminated [OF open_list(2) Cons])
    then show ?thesis
      using open_list(1)
      by (simp add: decodeElement_def msg_bytes_distinct decodeList_def Let_def Cons)
  qed
next
  case (open_section key n s body)
  show ?case
  proof (cases body)
    case Nil
    then show ?thesis
      using open_section(1)
      by (simp add: decodeElement_def msg_bytes_distinct decodeSection.simps Let_def)
  next
    case (Cons b buf)
    have "sectionElements b buf sec c = Inl Decoding" for sec c
      by (rule section_prefix(2) [OF open_section(2,3) Cons])
    then show ?thesis
      using open_section(1)
      by (simp add: decodeElement_def msg_bytes_distinct decodeSection.simps Let_def Cons)
  qed
next
  case (no_key_length t)
  then show ?case
    by (auto simp: decodeElement_def element_start_def decodeKeyValue_def decodeList_def
        decodeSection.simps Let_def)
next
  case (in_section key n s body t buf e)
  obtain b0 buf0 where nb: "body @ t # buf = b0 # buf0"
    by (cases "body @ t # buf") auto
  have start: "element_start t" by (rule cut_element_start [OF in_section(4)])
  have "sectionElements t buf sec c = Inl e" for sec c
    by (subst sectionElements_unfold)
      (simp add: element_start_not_end [OF start] in_section.IH)
  then have "sectionElements b0 buf0 sec c = Inl e" for sec c
    using section_prefix(1) [OF in_section(2,3) nb] by simp
  then show ?case
    using in_section(1)
    by (simp add: decodeElement_def msg_bytes_distinct decodeSection.simps Let_def nb)
qed

text \<open>
  Claim C4, as stated, fails for a list or section that the input ends before its
  end marker: the byte that should be the next type byte or the end marker is read with
  \<^verbatim>\<open>ReadByte\<close>, whose \<^verbatim>\<open>io.EOF\<close> is returned as the generic
  \<^verbatim>\<open>errDecoding\<close>, not as a malformed-message error.
\<close>

theorem unterminated_counterexample:
  "decode [4, 1, 107] NewMessage = Inl Decoding
   \<and> decode [4, 1, 107, 5, 0, 1, 97] NewMessage = Inl Decoding
   \<and> decode [1, 1, 115] NewMessage = Inl Decoding
   \<and> decode [1, 1, 115, 3, 1, 107, 0, 1, 118] NewMessage = Inl Decoding
   \<and> \<not> malformed Decoding"
  by (simp add: decode_def decodeElements.simps decodeList_def decodeSection.simps
      sectionElements.simps listItems.simps decodeKeyValue_def NewMessage_def addItem_def
      string_of_def Uint16_def char_of_def bit_0 msg_bytes Let_def)

text \<open>
  Claim C4, amended. After any well-formed elements, an element that is cut short makes
  \<^verbatim>\<open>decode\<close> fail, at any depth of sections, with the error given by
  \<open>cut_element\<close>: a declared key length that exceeds the remaining bytes gives
  \<^verbatim>\<open>errBadKey\<close>, a declared value or item length that exceeds them
  \<^verbatim>\<open>errBadValue\<close>, two length bytes that are not both there
  \<^verbatim>\<open>errEndOfBuffer\<close>, all three malformed-message errors; a list or section that
  reaches the end of the input before its end marker gives \<^verbatim>\<open>errDecoding\<close>.
\<close>

theorem cut_input_errors:
  assumes "wf_message pre" and "encode pre = Inr bs"
    and "cut_element t buf e" and "buf \<noteq> []"
  shows "decode (bs @ t # buf) m = Inl e \<and> (malformed e \<or> e = Decoding)"
proof -
  have start: "element_start t" by (rule cut_element_start [OF assms(3)])
  have "decode (bs @ t # buf) m
      = decodeElements t buf (rebuilt (data pre) (keys pre) m)"
    by (simp add: decode_prefix [OF assms(1,2)] decode_Cons)
  also have "\<dots> = Inl e"
    by (subst decodeElements_unfold)
      (simp add: assms(4) start cut_element_decodeElement [OF assms(3)])
  finally have d: "decode (bs @ t # buf) m = Inl e" .
  have "malformed e \<or> e = Decoding"
    using assms(3) by (induction rule: cut_element.induct) simp_all
  with d show ?thesis by simp
qed

theorem cut_input_errors_witness:
  "wf_message (Message [''k''] (fmupd ''k'' (GString ''v'') fmempty))
   \<and> encode (Message [''k''] (fmupd ''k'' (GString ''v'') fmempty)) = Inr [3, 1, 107, 0, 1, 118]
   \<and> cut_element msgListStart [1, 107] Decoding
   \<and> decode ([3, 1, 107, 0, 1, 118] @ msgListStart # [1, 107]) NewMessage = Inl Decoding
   \<and> cut_element msgKeyValue [5, 97] BadKey
   \<and> decode ([3, 1, 107, 0, 1, 118] @ msgKeyValue # [5, 97]) NewMessage = Inl BadKey
   \<and> malformed BadKey"
proof -
  let ?pre = "Message [''k''] (fmupd ''k'' (GString ''v'') fmempty)"
  have wf: "wf_message ?pre" by simp
  have enc: "encode ?pre = Inr [3, 1, 107, 0, 1, 118]"
    by (simp add: encode_def encodeKeyValue_def bytes_def PutUint16_def msg_bytes)
  have c1: "cut_element msgListStart [1, 107] Decoding"
    using open_list [of "[107]" 1 "[]"] by simp
  have c2: "cut_element msgKeyValue [5, 97] BadKey"
    using short_key [of msgKeyValue "[97]" 5] by (simp add: element_start_def)
  from cut_input_errors [OF wf enc c1, of NewMessage] cut_input_errors [OF wf enc c2, of NewMessage]
    wf enc c1 c2
  show ?thesis by simp
qed


subsection \<open>The schema mapper\<close>

lemma zero_is_empty:
  "Zero v = v \<Longrightarrow> readable v \<Longrightarrow> emptyMessageElement False v = Inr True"
  "zero_fields fs = fs \<Longrightarrow> readable_fields fs \<Longrightarrow> emptyFields False fs True = Inr True"
proof (induction v and fs rule: Zero_zero_fields.induct)
  case (3 l)
  then show ?case by (cases l) simp_all
qed auto

lemma marshalFields_all_zero:
  "all_zero fs \<Longrightarrow> marshalFields fs m = Inr m"
proof (induction fs)
  case Nil
  then show ?case by simp
next
  case (Cons f fs)
  obtain t ex v where f: "f = SField t ex v" by (cases f)
  from Cons.prems have z: "Zero v = v" "readable v" and rest: "all_zero fs"
    by (simp_all add: all_zero_def f)
  show ?case
    using Cons.IH [OF rest] zero_is_empty(1) [OF z]
    by (simp add: f Let_def)
qed

text \<open>
  Claim C5, as stated, fails: a record whose only field is a tagged \<^verbatim>\<open>[]string\<close>
  holding a slice that is empty but not nil has no items in any field, yet
  \<^verbatim>\<open>marshal\<close> returns a message with one key, a list without items.
\<close>

theorem marshal_empty_slice_counterexample:
  "items (Slice []) = []
   \<and> marshal (FStruct [SField ''k'' True (FStrings (Slice []))]) NewMessage
       = Inr (Message [''k''] (fmupd ''k'' (GStrings (Slice [])) fmempty))
   \<and> Keys (Message [''k''] (fmupd ''k'' (GStrings (Slice [])) fmempty)) = [''k'']"
  by (simp add: newMessageTag_def added_def addItem_def NewMessage_def Keys_def)

text \<open>
  Claim C5, amended. For every record all of whose fields hold the zero value of
  their type, where the zero of a slice is the nil slice and a nested record is zero
  when its fields are, \<^verbatim>\<open>marshal\<close> of the record, or of a pointer to it, yields the
  empty message. A tagged exported \<^verbatim>\<open>[]string\<close> field is left out exactly when it is
  the nil slice; a slice that is empty but not nil is added as a list without items.
\<close>

theorem marshal_all_zero:
  assumes "all_zero fs"
  shows "marshal (FStruct fs) NewMessage = Inr NewMessage
         \<and> marshal (FStructPtr (Some fs)) NewMessage = Inr NewMessage
         \<and> Keys NewMessage = []
         \<and> (\<forall>t l. t \<noteq> ''-'' \<and> t \<noteq> '''' \<longrightarrow>
               marshal (FStruct [SField t True (FStrings l)]) NewMessage
               = Inr (if IsNil l then NewMessage
                      else Message [t] (fmupd t (GStrings l) fmempty)))"
proof -
  have "marshal (FStruct [SField t True (FStrings l)]) NewMessage
               = Inr (if IsNil l then NewMessage
                      else Message [t] (fmupd t (GStrings l) fmempty))"
    if "t \<noteq> ''-'' \<and> t \<noteq> ''''" for t l
    using that
    by (simp add: newMessageTag_def added_def addItem_def NewMessage_def)
  then show ?thesis
    using marshalFields_all_zero [OF assms, of NewMessage]
    by (simp add: NewMessage_def Keys_def)
qed

theorem marshal_all_zero_witness:
  "all_zero [SField ''name'' True (FString ''''), SField ''addrs'' True (FStrings NilSlice),
             SField ''child'' True (FStruct [SField ''mode'' True (FString '''')]),
             SField ''peer'' True (FStructPtr None)]
   \<and> marshal (FStruct [SField ''name'' True (FString ''''), SField ''addrs'' True (FStrings NilSlice),
             SField ''child'' True (FStruct [SField ''mode'' True (FString '''')]),
             SField ''peer'' True (FStructPtr None)]) NewMessage = Inr NewMessage
   \<and> marshal (FStruct [SField ''addrs'' True (FStrings (Slice []))]) NewMessage
       = Inr (Message [''addrs''] (fmupd ''addrs'' (GStrings (Slice [])) fmempty))"
proof -
  let ?fs = "[SField ''name'' True (FString ''''), SField ''addrs'' True (FStrings NilSlice),
             SField ''child'' True (FStruct [SField ''mode'' True (FString '''')]),
             SField ''peer'' True (FStructPtr None)]"
  have z: "all_zero ?fs" by (simp add: all_zero_def)
  from marshal_all_zero [OF z] z show ?thesis by simp
qed

text \<open>
  What \<^verbatim>\<open>unmarshal\<close> leaves alone: a field keeps its value when it is not exported,
  or when the name of its tag, the empty name for a field to skip, is not a key of
  the message.
\<close>

lemma unmarshalFields_frame:
  "unmarshalFields m fs = Inr fs' \<Longrightarrow>
   list_all2 (\<lambda>f f'. tag f' = tag f \<and> exported f' = exported f
        \<and> (fmlookup (data m) (name (newMessageTag (tag f))) = None \<or> \<not> exported f \<longrightarrow> f' = f))
     fs fs'"
proof (induction fs arbitrary: fs')
  case Nil
  then show ?case by simp
next
  case (Cons f fs)
  obtain t ex v where f: "f = SField t ex v" by (cases f)
  from Cons.prems obtain g gs where fs': "fs' = g # gs" and gs: "unmarshalFields m fs = Inr gs"
    and g: "tag g = t \<and> exported g = ex
        \<and> (fmlookup (data m) (name (newMessageTag t)) = None \<or> \<not> ex \<longrightarrow> g = f)"
    by (auto simp: f Let_def split: option.splits sum.splits if_splits)
  show ?case
    using Cons.IH [OF gs] g by (simp add: fs' f)
qed

text \<open>
  Claim C9 fails on the code: \<^verbatim>\<open>unmarshal\<close> does not test \<^verbatim>\<open>tag.skip\<close>, so a
  field with no tag, and one with the tag \<^verbatim>\<open>-\<close>, is looked up under the empty name.
  A message with the empty key, which the wire format allows and \<^verbatim>\<open>decode\<close> accepts,
  overwrites both fields.
\<close>

theorem unmarshal_sets_untagged_field:
  "unmarshal (Message [''''] (fmupd '''' (GString ''x'') fmempty))
     (FStructPtr (Some [SField '''' True (FString ''old''), SField ''-'' True (FString ''keep''),
                        SField ''a'' True (FString ''a0'')]))
   = Inr (FStructPtr (Some [SField '''' True (FString ''x''), SField ''-'' True (FString ''x''),
                        SField ''a'' True (FString ''a0'')]))
   \<and> decode [3, 0, 0, 1, 120] NewMessage = Inr (Message [''''] (fmupd '''' (GString ''x'') fmempty))"
  by (simp add: newMessageTag_def decode_def decodeElements.simps decodeKeyValue_def NewMessage_def
      addItem_def string_of_def Uint16_def char_of_def bit_0 msg_bytes)

text \<open>
  A field that is a struct is replaced by a new struct filled from the section, so its
  own fields that the section does not name are reset to their zero values.
\<close>

lemma nested_struct_is_replaced:
  "unmarshal (Message [''s'']
      (fmupd ''s'' (GMessage (Message [''a''] (fmupd ''a'' (GString ''x'') fmempty))) fmempty))
     (FStructPtr (Some [SField ''s'' True
        (FStruct [SField ''a'' True (FString ''old''), SField ''b'' True (FString ''keep'')])]))
   = Inr (FStructPtr (Some [SField ''s'' True
        (FStruct [SField ''a'' True (FString ''x''), SField ''b'' True (FString '''')])]))"
  by (simp add: newMessageTag_def)


end
